theory Spec2Isabelle
  imports Main "HOL-Library.Word"
begin

unbundle bit_operations_syntax

section \<open>Host language: values, strings, exceptions, buffers\<close>

text \<open>
  Both peers are JavaScript programs. The values they exchange are modelled by
  \<open>jsval\<close>; a \<open>string\<close> is a sequence of UTF-16 code units below U+0100 (one
  \<open>char\<close> each), the numbers are the signed integers of 32 bits, and the members
  of an object are its own enumerable members, listed in enumeration order with
  distinct keys. \<open>JFunction r\<close> is a function value that is passed around as
  data; the model keeps of it the value \<open>r\<close> it returns when the platform calls
  it as a method of an object (\<^verbatim>\<open>toJSON\<close>, \<^verbatim>\<open>toString\<close>, \<^verbatim>\<open>valueOf\<close>).
\<close>

datatype jsval = JUndefined | JNull | JBool bool | JNum "32 word" | JStr string
  | JArr "jsval list" | JObj "(string \<times> jsval) list" | JFunction jsval

text \<open>
  The sources throw plain strings (\<^verbatim>\<open>throw 'Invalid parameter: type'\<close>); the
  platform throws error objects, of which only the class is kept.
\<close>

datatype exn = Thrown string | TypeError | RangeError | SyntaxError

type_synonym byte = "8 word"
type_synonym buffer = "byte list"

subsection \<open>\<^verbatim>\<open>JSON.stringify\<close>\<close>

fun nat_digits :: "nat \<Rightarrow> string" where
  "nat_digits n = (if n < 10 then [char_of (48 + n)]
     else nat_digits (n div 10) @ [char_of (48 + n mod 10)])"

declare nat_digits.simps [simp del]

definition int_digits :: "int \<Rightarrow> string" where
  "int_digits i = (if i < 0 then CHR ''-'' # nat_digits (nat (- i)) else nat_digits (nat i))"

definition hex_digit :: "nat \<Rightarrow> char" where
  "hex_digit n = (if n < 10 then char_of (48 + n) else char_of (87 + n))"

text \<open>Escaping of one code unit inside a JSON string literal.\<close>

definition json_escape :: "char \<Rightarrow> string" where
  "json_escape c = (let n = (of_char c :: nat) in
     if n = 34 then [CHR 0x5C, CHR 0x22]
     else if n = 92 then [CHR 0x5C, CHR 0x5C]
     else if n = 8 then [CHR 0x5C, CHR ''b'']
     else if n = 9 then [CHR 0x5C, CHR ''t'']
     else if n = 10 then [CHR 0x5C, CHR ''n'']
     else if n = 12 then [CHR 0x5C, CHR ''f'']
     else if n = 13 then [CHR 0x5C, CHR ''r'']
     else if n < 32 then [CHR 0x5C, CHR ''u'', CHR ''0'', CHR ''0'', hex_digit (n div 16), hex_digit (n mod 16)]
     else [c])"

definition json_quote :: "string \<Rightarrow> string" where
  "json_quote s = CHR 0x22 # concat (map json_escape s) @ [CHR 0x22]"

fun join :: "'a list \<Rightarrow> 'a list list \<Rightarrow> 'a list" where
  "join sep [] = []"
| "join sep [x] = x"
| "join sep (x # y # ys) = x @ sep @ join sep (y # ys)"

text \<open>
  Before a value is written, \<^verbatim>\<open>JSON.stringify\<close> looks for a member \<^verbatim>\<open>toJSON\<close>
  of it; when that member is a function, the value the function returns is
  written in place of the object.
\<close>

definition toJSON :: "jsval \<Rightarrow> jsval" where
  "toJSON v = (case v of
       JObj kvs \<Rightarrow> (case map_of kvs ''toJSON'' of Some (JFunction r) \<Rightarrow> r | _ \<Rightarrow> v)
     | _ \<Rightarrow> v)"

lemma toJSON_simps [simp]:
  "toJSON JUndefined = JUndefined"
  "toJSON JNull = JNull"
  "toJSON (JBool b) = JBool b"
  "toJSON (JNum i) = JNum i"
  "toJSON (JStr s) = JStr s"
  "toJSON (JArr xs) = JArr xs"
  "toJSON (JFunction r) = JFunction r"
  by (simp_all add: toJSON_def)

lemma size_member: "(k, x) \<in> set kvs \<Longrightarrow> size x < size (JObj kvs)"
  by (induction kvs) auto

lemma size_toJSON: "size (toJSON v) \<le> size v"
proof (cases v)
  case (JObj kvs)
  show ?thesis
  proof (cases "map_of kvs ''toJSON''")
    case None
    then show ?thesis using JObj by (simp add: toJSON_def)
  next
    case (Some x)
    then have "size x < size v" using JObj size_member [OF map_of_SomeD [OF Some]] by simp
    then show ?thesis using JObj Some by (cases x) (simp_all add: toJSON_def)
  qed
qed (simp_all add: toJSON_def)

text \<open>
  \<open>None\<close> is the result \<^verbatim>\<open>undefined\<close>, which \<^verbatim>\<open>JSON.stringify\<close> returns for
  \<^verbatim>\<open>undefined\<close> and for functions. Inside an array such a value is written
  \<^verbatim>\<open>null\<close>; inside an object the member is left out. \<open>serialize\<close> writes a
  value after its \<^verbatim>\<open>toJSON\<close> has been looked at.
\<close>

function JSON_stringify :: "jsval \<Rightarrow> string option"
  and serialize :: "jsval \<Rightarrow> string option"
where
  "JSON_stringify v = serialize (toJSON v)"
| "serialize JUndefined = None"
| "serialize (JFunction r) = None"
| "serialize JNull = Some ''null''"
| "serialize (JBool b) = Some (if b then ''true'' else ''false'')"
| "serialize (JNum i) = Some (int_digits (sint i))"
| "serialize (JStr s) = Some (json_quote s)"
| "serialize (JArr xs) = Some (''['' @ join '',''
     (map (\<lambda>x. case JSON_stringify x of None \<Rightarrow> ''null'' | Some txt \<Rightarrow> txt) xs) @ '']'')"
| "serialize (JObj kvs) = Some (''{'' @ join '',''
     (concat (map (\<lambda>(k, v). case JSON_stringify v of None \<Rightarrow> []
        | Some txt \<Rightarrow> [json_quote k @ '':'' @ txt]) kvs)) @ ''}'')"
  by pat_completeness auto

termination
proof (relation "measure (\<lambda>x. case x of Inl v \<Rightarrow> 2 * size v + 1 | Inr v \<Rightarrow> 2 * size v)",
    goal_cases)
  case 1
  show ?case by simp
next
  case (2 v)
  show ?case using size_toJSON [of v] by simp
next
  case (3 xs x)
  then have "size x < size (JArr xs)" by (induction xs) auto
  then show ?case by simp
next
  case (4 kvs x k v)
  then have "size v < size (JObj kvs)" using size_member [of k v kvs] by simp
  then show ?case by simp
qed

text \<open>
  \<^verbatim>\<open>jsonConvertible\<close> (both sources, lines 7-16 and 6-15): the value converts when
  \<^verbatim>\<open>JSON.stringify\<close> returns a string. A \<open>jsval\<close> is a finite tree and its
  functions return, so the \<^verbatim>\<open>catch\<close> branch (cyclic structures, a \<^verbatim>\<open>toJSON\<close>
  that throws) has no counterpart.
\<close>

definition jsonConvertible :: "jsval \<Rightarrow> bool" where
  "jsonConvertible x = (case JSON_stringify x of None \<Rightarrow> False | Some txt \<Rightarrow> True)"

subsection \<open>Buffers\<close>

text \<open>
  Writing a string to the socket sends its UTF-8 encoding: one byte for a code unit
  below U+0080, two bytes for the others of the range modelled.
\<close>

definition utf8_unit :: "char \<Rightarrow> buffer" where
  "utf8_unit c = (let n = (of_char c :: nat) in
     if n < 128 then [of_nat n] else [of_nat (192 + n div 64), of_nat (128 + n mod 64)])"

definition utf8 :: "string \<Rightarrow> buffer" where
  "utf8 s = concat (map utf8_unit s)"

text \<open>
  \<^verbatim>\<open>new Buffer(n)\<close> allocates \<open>n\<close> bytes. Their initial content is not specified
  by the platform; it is taken as zero here, and no byte of such a buffer reaches
  the socket before the encoder has written it.
\<close>

definition new_Buffer :: "nat \<Rightarrow> buffer" where
  "new_Buffer n = replicate n 0"

text \<open>
  The integer writers check the value against the width of the field and the
  offset against the buffer, and throw when either is out of range.
\<close>

definition writeUInt8 :: "int \<Rightarrow> nat \<Rightarrow> buffer \<Rightarrow> exn + buffer" where
  "writeUInt8 v off b = (if 0 \<le> v \<and> v \<le> 255 \<and> off + 1 \<le> length b
     then Inr (b[off := of_int v]) else Inl RangeError)"

definition writeUInt16BE :: "int \<Rightarrow> nat \<Rightarrow> buffer \<Rightarrow> exn + buffer" where
  "writeUInt16BE v off b = (if 0 \<le> v \<and> v \<le> 65535 \<and> off + 2 \<le> length b
     then Inr (b[off := of_int (v div 256), off + 1 := of_int (v mod 256)])
     else Inl RangeError)"

definition and_then :: "exn + 'a \<Rightarrow> ('a \<Rightarrow> exn + 'b) \<Rightarrow> exn + 'b" where
  "and_then r f = (case r of Inl e \<Rightarrow> Inl e | Inr x \<Rightarrow> f x)"

text \<open>
  The readers are used by the decoder only below a length check that covers the
  bytes read (see \<open>frame_header\<close>), so the out-of-range exception of the platform
  is never raised by them.
\<close>

definition readUInt8 :: "buffer \<Rightarrow> nat \<Rightarrow> int" where
  "readUInt8 b off = uint (b ! off)"

definition readUInt16BE :: "buffer \<Rightarrow> nat \<Rightarrow> int" where
  "readUInt16BE b off = 256 * uint (b ! off) + uint (b ! (off + 1))"

definition readUInt32BE :: "buffer \<Rightarrow> nat \<Rightarrow> int" where
  "readUInt32BE b off = 16777216 * uint (b ! off) + 65536 * uint (b ! (off + 1))
     + 256 * uint (b ! (off + 2)) + uint (b ! (off + 3))"

text \<open>
  \<^verbatim>\<open>buf.slice(start, end)\<close>: a negative index counts from the end of the buffer,
  both indices are clamped to the buffer, and an end before the start gives the
  empty buffer.
\<close>

definition slice_index :: "nat \<Rightarrow> int \<Rightarrow> nat" where
  "slice_index len i = (if i < 0 then nat (int len + i) else min (nat i) len)"

definition slice :: "buffer \<Rightarrow> int \<Rightarrow> int \<Rightarrow> buffer" where
  "slice b s e = (let s' = slice_index (length b) s; e' = slice_index (length b) e
     in take (e' - s') (drop s' b))"

definition slice_from :: "buffer \<Rightarrow> int \<Rightarrow> buffer" where
  "slice_from b s = drop (slice_index (length b) s) b"

text \<open>
  \<^verbatim>\<open>Buffer.concat(list, totalLength)\<close>: a negative total length is rejected; the
  result has exactly the total length, cut or zero-filled at the end.
\<close>

definition Buffer_concat :: "buffer list \<Rightarrow> int \<Rightarrow> exn + buffer" where
  "Buffer_concat bs len = (if len < 0 then Inl RangeError
     else Inr (take (nat len) (concat bs @ replicate (nat len) 0)))"

text \<open>
  The operators \<^verbatim>\<open>>>\<close>, \<^verbatim>\<open><<\<close>, \<^verbatim>\<open>&\<close> and \<^verbatim>\<open>^\<close> convert their operands to 32-bit
  integers, use the shift count modulo 32 and return a signed 32-bit result.
\<close>

definition js_shl :: "int \<Rightarrow> int \<Rightarrow> int" where
  "js_shl a n = sint (push_bit (nat (n mod 32)) (word_of_int a :: 32 word))"

definition js_shr :: "int \<Rightarrow> int \<Rightarrow> int" where
  "js_shr a n = sint (signed_drop_bit (nat (n mod 32)) (word_of_int a :: 32 word))"

definition js_and :: "int \<Rightarrow> int \<Rightarrow> int" where
  "js_and a b = sint ((word_of_int a :: 32 word) AND word_of_int b)"

definition js_xor :: "int \<Rightarrow> int \<Rightarrow> int" where
  "js_xor a b = sint ((word_of_int a :: 32 word) XOR word_of_int b)"


section \<open>Server: connection state, encoder and session operations\<close>

text \<open>
  Application callbacks are functions of the application. A callback is modelled
  by what it does to the connection: the session operations it performs, in
  order, as a function of its argument. An exception thrown by an operation is
  not caught by the callback and leaves it at once.
\<close>

datatype handler = Handler "jsval \<Rightarrow> action list"
and action = Send jsval jsval | Receive jsval harg | Close harg
and harg = ArgUndefined | ArgNull | ArgFunction handler | ArgOther

text \<open>Invocations of application callbacks, as observed from outside.\<close>

datatype event = ConnectionHandler jsval | MessageHandler string jsval | CloseHandler

text \<open>
  The variables of one upgraded connection (server source, lines 36-41), the
  connection handler given to the module, and two observations: the bytes passed
  to \<^verbatim>\<open>socket.write\<close> and the callbacks invoked so far.
\<close>

record conn =
  handler :: handler
  started :: bool
  closed :: bool
  closeHandler :: "handler option"
  messageHandlers :: "string \<rightharpoonup> handler"
  dataReceived :: buffer
  payloadReceived :: buffer
  written :: buffer
  invoked :: "event list"

type_synonym 's outcome = "exn option \<times> 's"

definition socket_write :: "buffer \<Rightarrow> conn \<Rightarrow> conn" where
  "socket_write b st = st\<lparr>written := written st @ b\<rparr>"

text \<open>The variable-width length field of \<^verbatim>\<open>sendMessage\<close> (lines 52-65).\<close>

definition payloadLengthBuffer :: "nat \<Rightarrow> exn + buffer" where
  "payloadLengthBuffer n =
     (if n < 126 then Inr [of_nat n]
      else if n < 65536 then
        and_then (writeUInt8 126 0 (new_Buffer 3)) (writeUInt16BE (int n) 1)
      else
        and_then (and_then (writeUInt8 127 0 (new_Buffer 9)) (writeUInt16BE 0 1))
          (writeUInt16BE (int n) 5))"

text \<open>
  \<^verbatim>\<open>sendMessage\<close> (lines 44-71). The first header byte is written before the
  length of the text is looked at, so it is on the wire when the length field
  cannot be built.
\<close>

definition sendMessage :: "jsval \<Rightarrow> conn \<Rightarrow> conn outcome" where
  "sendMessage message st =
     (if \<not> closed st then
        (let data = JSON_stringify message; st1 = socket_write [129] st in
         case data of
           None \<Rightarrow> (Some TypeError, st1)
         | Some txt \<Rightarrow>
             (case payloadLengthBuffer (length txt) of
                Inl e \<Rightarrow> (Some e, st1)
              | Inr lenbuf \<Rightarrow> (None, socket_write (utf8 txt) (socket_write lenbuf st1))))
      else (None, st))"

definition is_string :: "jsval \<Rightarrow> bool" where
  "is_string v = (case v of JStr s \<Rightarrow> True | _ \<Rightarrow> False)"

definition string_of :: "jsval \<Rightarrow> string" where
  "string_of v = (case v of JStr s \<Rightarrow> s | _ \<Rightarrow> [])"

text \<open>\<^verbatim>\<open>send\<close> of the session handle (lines 225-243).\<close>

definition session_send :: "jsval \<Rightarrow> jsval \<Rightarrow> conn \<Rightarrow> conn outcome" where
  "session_send ty message st =
     (if \<not> is_string ty then (Some (Thrown ''Invalid parameter: type''), st)
      else if \<not> jsonConvertible message then (Some (Thrown ''Invalid parameter: message''), st)
      else if closed st then
        (Some (Thrown ''Attempted to transmit after the connection has been closed''), st)
      else sendMessage
        (JObj [(''type'', JStr ''message''), (''messageType'', ty), (''message'', message)]) st)"

text \<open>
  \<^verbatim>\<open>receive\<close> of the session handle (lines 246-260). The registry is an
  object: an assignment to its member \<^verbatim>\<open>__proto__\<close> installs the handler as
  the prototype of the registry, where a lookup of that name finds it, and
  \<^verbatim>\<open>delete\<close> does not take it away again. The model keeps such a handler
  under its name; it does not follow the members the registry then inherits
  from the handler function.
\<close>

definition unregister :: "string \<Rightarrow> (string \<rightharpoonup> 'h) \<Rightarrow> (string \<rightharpoonup> 'h)" where
  "unregister k registry = (if k = ''__proto__'' then registry else registry(k := None))"

definition session_receive :: "jsval \<Rightarrow> harg \<Rightarrow> conn \<Rightarrow> conn outcome" where
  "session_receive ty h st =
     (if \<not> is_string ty then (Some (Thrown ''Invalid parameter: type''), st)
      else case h of
        ArgNull \<Rightarrow> (None, st\<lparr>messageHandlers := unregister (string_of ty) (messageHandlers st)\<rparr>)
      | ArgFunction f \<Rightarrow> (None, st\<lparr>messageHandlers := (messageHandlers st)(string_of ty \<mapsto> f)\<rparr>)
      | _ \<Rightarrow> (Some (Thrown ''Invalid parameter: handler''), st))"

text \<open>
  The registration form of \<^verbatim>\<open>close\<close> (lines 263-272, without the branch that
  closes): a handler or \<^verbatim>\<open>null\<close> is stored, anything else is refused.
\<close>

definition session_close_register :: "harg \<Rightarrow> conn \<Rightarrow> conn outcome" where
  "session_close_register h st =
     (case h of
        ArgNull \<Rightarrow> (None, st\<lparr>closeHandler := None\<rparr>)
      | ArgFunction f \<Rightarrow> (None, st\<lparr>closeHandler := Some f\<rparr>)
      | _ \<Rightarrow> (Some (Thrown ''Invalid parameter: handler''), st))"

text \<open>None of the operations above opens or closes the connection.\<close>

lemma sendMessage_closed: "closed (snd (sendMessage m st)) = closed st"
  by (simp add: sendMessage_def socket_write_def Let_def split: option.splits sum.splits)

lemma session_send_closed: "closed (snd (session_send ty m st)) = closed st"
  by (simp add: session_send_def sendMessage_closed)

lemma session_receive_closed: "closed (snd (session_receive ty h st)) = closed st"
  by (simp add: session_receive_def split: harg.splits)

lemma session_close_register_closed: "closed (snd (session_close_register h st)) = closed st"
  by (simp add: session_close_register_def split: harg.splits)

definition script :: "handler \<Rightarrow> jsval \<Rightarrow> action list" where
  "script h v = (case h of Handler f \<Rightarrow> f v)"

text \<open>
  \<^verbatim>\<open>close\<close> (lines 75-93) and the execution of a callback. The two are mutually
  recursive: closing calls the close handler, and a callback may close the
  session. \<open>run\<close> performs the operations of a callback one after the other and
  stops at the first exception.
\<close>

function close :: "bool \<Rightarrow> conn \<Rightarrow> conn outcome"
  and run :: "action list \<Rightarrow> conn \<Rightarrow> conn outcome"
where
  "close needToCloseSocket st =
     (if \<not> closed st then
        (case (if needToCloseSocket then sendMessage (JObj [(''type'', JStr ''close'')]) st
               else (None, st)) of
           (Some e, st1) \<Rightarrow> (Some e, st1)
         | (None, st1) \<Rightarrow>
             (let st2 = st1\<lparr>closed := True, dataReceived := []\<rparr> in
              case closeHandler st2 of
                None \<Rightarrow> (None, st2)
              | Some h \<Rightarrow> run (script h JUndefined) (st2\<lparr>invoked := invoked st2 @ [CloseHandler]\<rparr>)))
      else (None, st))"
| "run [] st = (None, st)"
| "run (Send ty message # rest) st =
     (case session_send ty message st of
        (Some e, st') \<Rightarrow> (Some e, st')
      | (None, st') \<Rightarrow> run rest st')"
| "run (Receive ty h # rest) st =
     (case session_receive ty h st of
        (Some e, st') \<Rightarrow> (Some e, st')
      | (None, st') \<Rightarrow> run rest st')"
| "run (Close ArgUndefined # rest) st =
     (case close True st of
        (Some e, st') \<Rightarrow> (Some e, st')
      | (None, st') \<Rightarrow> run rest st')"
| "run (Close ArgNull # rest) st =
     (case session_close_register ArgNull st of
        (Some e, st') \<Rightarrow> (Some e, st')
      | (None, st') \<Rightarrow> run rest st')"
| "run (Close (ArgFunction f) # rest) st =
     (case session_close_register (ArgFunction f) st of
        (Some e, st') \<Rightarrow> (Some e, st')
      | (None, st') \<Rightarrow> run rest st')"
| "run (Close ArgOther # rest) st =
     (case session_close_register ArgOther st of
        (Some e, st') \<Rightarrow> (Some e, st')
      | (None, st') \<Rightarrow> run rest st')"
  by pat_completeness auto

termination
proof (relation "inv_image (less_than <*lex*> less_than)
    (\<lambda>x. case x of
       Inl (b, st) \<Rightarrow> (if closed st then 0 else 1 :: nat, 0 :: nat)
     | Inr (acts, st) \<Rightarrow> (if closed st then 0 else 1, Suc (length acts)))", goal_cases)
  case 1
  show ?case by (intro wf_inv_image wf_lex_prod wf_less_than)
next
  case 2
  then show ?case by simp
next
  case (3 ty message rest st x y)
  then have "closed y = closed st"
    using session_send_closed [of ty message st] by (metis snd_conv)
  then show ?case by simp
next
  case (4 ty h rest st x y)
  then have "closed y = closed st"
    using session_receive_closed [of ty h st] by (metis snd_conv)
  then show ?case by simp
next
  case 5
  then show ?case by simp
next
  case (6 rest st x y)
  then have "closed st \<Longrightarrow> closed y"
    by (simp add: close.psimps)
  then show ?case by auto
next
  case (7 rest st x y)
  then have "closed y = closed st"
    using session_close_register_closed [of ArgNull st] by (metis snd_conv)
  then show ?case by simp
next
  case (8 f rest st x y)
  then have "closed y = closed st"
    using session_close_register_closed [of "ArgFunction f" st] by (metis snd_conv)
  then show ?case by simp
next
  case (9 rest st x y)
  then have "closed y = closed st"
    using session_close_register_closed [of ArgOther st] by (metis snd_conv)
  then show ?case by simp
qed


declare close.simps [simp del]

text \<open>
  A relation between states that is reflexive and transitive and holds across each
  elementary step holds across closing and across a callback.
\<close>

lemma close_run_rel:
  assumes rfl: "\<And>s. R s s"
    and trn: "\<And>a b c. R a b \<Longrightarrow> R b c \<Longrightarrow> R a c"
    and send: "\<And>ty m s. R s (snd (session_send ty m s))"
    and recv: "\<And>ty h s. R s (snd (session_receive ty h s))"
    and reg: "\<And>h s. R s (snd (session_close_register h s))"
    and msg: "\<And>s. \<not> closed s \<Longrightarrow> R s (snd (sendMessage (JObj [(''type'', JStr ''close'')]) s))"
    and mark: "\<And>s. \<not> closed s \<Longrightarrow> R s (s\<lparr>closed := True, dataReceived := []\<rparr>)"
    and call: "\<And>s. \<not> closed s \<Longrightarrow>
      R s (s\<lparr>closed := True, dataReceived := [], invoked := invoked s @ [CloseHandler]\<rparr>)"
  shows "R st (snd (close b st))" and "R st (snd (run acts st))"
proof (induct b st and acts st rule: close_run.induct)
  case (1 needToCloseSocket st)
  show ?case
  proof (cases "closed st")
    case True
    then show ?thesis by (simp add: close.simps rfl)
  next
    case False
    obtain e st1 where s: "(if needToCloseSocket then sendMessage (JObj [(''type'', JStr ''close'')]) st
               else (None, st)) = (e, st1)" by force
    have r1: "R st st1" and c1: "\<not> closed st1"
      using s msg [OF False] rfl [of st] False
        sendMessage_closed [of "JObj [(''type'', JStr ''close'')]" st]
      by (cases needToCloseSocket; simp; metis snd_conv)+
    show ?thesis
    proof (cases e)
      case (Some a)
      then show ?thesis using False s r1 by (simp add: close.simps)
    next
      case None
      let ?st2 = "st1\<lparr>closed := True, dataReceived := []\<rparr>"
      have r2: "R st ?st2" using trn [OF r1 mark [OF c1]] .
      show ?thesis
      proof (cases "closeHandler st1")
        case N: None
        then show ?thesis using False s None r2 by (simp add: close.simps Let_def)
      next
        case (Some h)
        have r3: "R st (?st2\<lparr>invoked := invoked ?st2 @ [CloseHandler]\<rparr>)"
          using trn [OF r1 call [OF c1]] by simp
        have "closeHandler ?st2 = Some h" using Some by simp
        from 1 [OF False s [symmetric] None HOL.refl this]
        have "R (?st2\<lparr>invoked := invoked ?st2 @ [CloseHandler]\<rparr>)
                (snd (run (script h JUndefined) (?st2\<lparr>invoked := invoked ?st2 @ [CloseHandler]\<rparr>)))" .
        from trn [OF r3 this]
        show ?thesis using False s None Some by (simp add: close.simps Let_def)
      qed
    qed
  qed
next
  case (2 st)
  then show ?case by (simp add: rfl)
next
  case (3 ty message rest st)
  then show ?case
    using send [of st ty message] trn
    by (cases "session_send ty message st") (auto split: option.splits)
next
  case (4 ty h rest st)
  then show ?case
    using recv [of st ty h] trn
    by (cases "session_receive ty h st") (auto split: option.splits)
next
  case (5 rest st)
  then show ?case
    using trn
    by (cases "close True st") (auto split: option.splits)
next
  case (6 rest st)
  then show ?case
    using reg [of st ArgNull] trn
    by (cases "session_close_register ArgNull st") (auto split: option.splits)
next
  case (7 f rest st)
  then show ?case
    using reg [of st "ArgFunction f"] trn
    by (cases "session_close_register (ArgFunction f) st") (auto split: option.splits)
next
  case (8 rest st)
  then show ?case
    using reg [of st ArgOther] trn
    by (cases "session_close_register ArgOther st") (auto split: option.splits)
qed

text \<open>Sending and registering leave the two receive buffers alone; closing may empty the first.\<close>

lemma sendMessage_fields:
  "\<exists>w. snd (sendMessage m st) = st\<lparr>written := w\<rparr>"
  by (auto simp: sendMessage_def socket_write_def Let_def split: option.splits sum.splits
      intro: exI [of _ "written st"])

lemma sendMessage_buffers [simp]:
  "payloadReceived (snd (sendMessage m st)) = payloadReceived st"
  "dataReceived (snd (sendMessage m st)) = dataReceived st"
  using sendMessage_fields [of m st] by auto

lemma session_send_buffers [simp]:
  "payloadReceived (snd (session_send ty m st)) = payloadReceived st"
  "dataReceived (snd (session_send ty m st)) = dataReceived st"
  by (simp_all add: session_send_def)

lemma session_receive_buffers [simp]:
  "payloadReceived (snd (session_receive ty h st)) = payloadReceived st"
  "dataReceived (snd (session_receive ty h st)) = dataReceived st"
  by (simp_all add: session_receive_def split: harg.splits)

lemma session_close_register_buffers [simp]:
  "payloadReceived (snd (session_close_register h st)) = payloadReceived st"
  "dataReceived (snd (session_close_register h st)) = dataReceived st"
  by (simp_all add: session_close_register_def split: harg.splits)

lemma close_run_buffers:
  "payloadReceived (snd (close b st)) = payloadReceived st \<and>
     (dataReceived (snd (close b st)) = dataReceived st \<or> dataReceived (snd (close b st)) = [])"
  "payloadReceived (snd (run acts st)) = payloadReceived st \<and>
     (dataReceived (snd (run acts st)) = dataReceived st \<or> dataReceived (snd (run acts st)) = [])"
proof -
  let ?R = "\<lambda>a b. payloadReceived b = payloadReceived a \<and>
     (dataReceived b = dataReceived a \<or> dataReceived b = [])"
  show "payloadReceived (snd (close b st)) = payloadReceived st \<and>
     (dataReceived (snd (close b st)) = dataReceived st \<or> dataReceived (snd (close b st)) = [])"
    and "payloadReceived (snd (run acts st)) = payloadReceived st \<and>
     (dataReceived (snd (run acts st)) = dataReceived st \<or> dataReceived (snd (run acts st)) = [])"
    by (rule close_run_rel [where R = ?R]; (simp; fail | auto))+
qed

section \<open>Server: the frame decoder\<close>

text \<open>
  What the decoder learns from the front of the buffer (lines 105-159): more bytes
  are needed, the front frame is a close frame, or a whole frame is present, with
  its FIN bit, opcode, mask bit, payload length, the index where its payload
  starts, and its masking key. The 64-bit length is computed with the source's
  own expression (line 142).
\<close>

datatype header = NeedMore | CloseFrame | Frame bool int bool int nat buffer

text \<open>Line 142: \<^verbatim>\<open>(dataReceived.readUInt32BE(2) << 32) + dataReceived.readUInt32BE(6)\<close>.\<close>

definition payloadLength64 :: "buffer \<Rightarrow> int" where
  "payloadLength64 d = js_shl (readUInt32BE d 2) 32 + readUInt32BE d 6"

definition frame_payload :: "buffer \<Rightarrow> bool \<Rightarrow> int \<Rightarrow> bool \<Rightarrow> int \<Rightarrow> nat \<Rightarrow> header" where
  "frame_payload d fin opcode masked payloadLength nextByteIndex =
     (if masked then
        (if length d < nextByteIndex + 4 then NeedMore
         else if int (length d) < int (nextByteIndex + 4) + payloadLength then NeedMore
         else Frame fin opcode masked payloadLength (nextByteIndex + 4)
                (slice d (int nextByteIndex) (int nextByteIndex + 4)))
      else
        (if int (length d) < int nextByteIndex + payloadLength then NeedMore
         else Frame fin opcode masked payloadLength nextByteIndex []))"

definition frame_header :: "buffer \<Rightarrow> header" where
  "frame_header d =
     (if length d < 1 then NeedMore
      else
        let fin = (js_shr (readUInt8 d 0) 7 = 1);
            opcode = js_and (readUInt8 d 0) 15
        in
        if opcode = 8 then CloseFrame
        else if length d < 2 then NeedMore
        else
          let masked = (js_shr (readUInt8 d 1) 7 = 1) in
          if js_and (readUInt8 d 1) 127 < 126 then
            frame_payload d fin opcode masked (js_and (readUInt8 d 1) 127) 2
          else if js_and (readUInt8 d 1) 127 = 126 then
            (if length d < 4 then NeedMore
             else frame_payload d fin opcode masked (readUInt16BE d 2) 4)
          else
            (if length d < 10 then NeedMore
             else frame_payload d fin opcode masked (payloadLength64 d) 10))"

text \<open>
  Unmasking in place (lines 162-166). The masking key is a view of four header
  bytes in front of the payload; the loop writes payload bytes only, so the key
  does not change while it runs.
\<close>

definition unmask :: "buffer \<Rightarrow> nat \<Rightarrow> buffer \<Rightarrow> int \<Rightarrow> buffer" where
  "unmask d nextByteIndex maskingKey payloadLength =
     fold (\<lambda>i b. b[nextByteIndex + i := (b ! (nextByteIndex + i)) XOR (maskingKey ! (i mod 4))])
       [0..<nat payloadLength] d"

text \<open>Property access \<^verbatim>\<open>v.name\<close> on a parsed value that is not \<^verbatim>\<open>null\<close>.\<close>

definition property :: "jsval \<Rightarrow> string \<Rightarrow> jsval" where
  "property v name = (case v of
       JObj kvs \<Rightarrow> (case map_of kvs name of None \<Rightarrow> JUndefined | Some x \<Rightarrow> x)
     | _ \<Rightarrow> JUndefined)"

text \<open>
  The key under which \<^verbatim>\<open>messageHandlers[v]\<close> looks up a parsed value is the
  value converted to a string. A primitive value has its text. An object is
  asked for a primitive value with its method \<^verbatim>\<open>toString\<close>, then with
  \<^verbatim>\<open>valueOf\<close>: an own member of that name is called if it is a function and
  passed over if it is not; without an own member the inherited method is
  called, which gives \<^verbatim>\<open>[object Object]\<close> for \<^verbatim>\<open>toString\<close> and the object
  itself for \<^verbatim>\<open>valueOf\<close>. When neither gives a primitive value the conversion
  throws a \<^verbatim>\<open>TypeError\<close>, which is the result \<open>None\<close>. An array joins the
  texts of its elements.
\<close>

definition is_primitive :: "jsval \<Rightarrow> bool" where
  "is_primitive v = (case v of JArr xs \<Rightarrow> False | JObj kvs \<Rightarrow> False | JFunction r \<Rightarrow> False
     | _ \<Rightarrow> True)"

fun primitive_string :: "jsval \<Rightarrow> string" where
  "primitive_string (JStr s) = s"
| "primitive_string JUndefined = ''undefined''"
| "primitive_string JNull = ''null''"
| "primitive_string (JBool b) = (if b then ''true'' else ''false'')"
| "primitive_string (JNum i) = int_digits (sint i)"
| "primitive_string v = []"

definition method_result :: "(string \<times> jsval) list \<Rightarrow> string \<Rightarrow> jsval option \<Rightarrow> jsval option" where
  "method_result kvs name inherited = (case map_of kvs name of
       None \<Rightarrow> inherited
     | Some (JFunction r) \<Rightarrow> Some r
     | Some x \<Rightarrow> None)"

definition primitive_result :: "jsval option \<Rightarrow> string option" where
  "primitive_result r = (case r of
       None \<Rightarrow> None
     | Some p \<Rightarrow> if is_primitive p then Some (primitive_string p) else None)"

definition object_key :: "(string \<times> jsval) list \<Rightarrow> string option" where
  "object_key kvs =
     (case primitive_result (method_result kvs ''toString'' (Some (JStr ''[object Object]''))) of
        Some s \<Rightarrow> Some s
      | None \<Rightarrow> primitive_result (method_result kvs ''valueOf'' None))"

text \<open>
  Parsed JSON text holds no function; the clause for a function stands for its
  source text, which the model does not keep.
\<close>

fun property_key :: "jsval \<Rightarrow> string option" where
  "property_key (JArr xs) = map_option (join '','')
     (those (map (\<lambda>x. if x = JNull \<or> x = JUndefined then Some [] else property_key x) xs))"
| "property_key (JObj kvs) = object_key kvs"
| "property_key (JFunction r) = Some ''function () { [native code] }''"
| "property_key v = Some (primitive_string v)"

text \<open>
  The registry \<^verbatim>\<open>messageHandlers\<close> is an object, so besides the handlers
  registered in it a lookup finds the members every object inherits. What the
  call \<^verbatim>\<open>messageHandlers[k](v)\<close> amounts to: no member of that name
  (\<open>Absent\<close>); a handler of the application, with the name it is registered under
  and its argument; an inherited method that returns (\<open>Inert\<close>); or a
  \<^verbatim>\<open>TypeError\<close> (\<open>Faulty\<close>), because the member is no function
  (\<^verbatim>\<open>__proto__\<close>), because the method wants a function as its second argument,
  or because it cannot convert \<open>v\<close> to a property key. The inherited
  \<^verbatim>\<open>toLocaleString\<close> calls the member \<^verbatim>\<open>toString\<close> without an argument.
\<close>

datatype 'h lookup = Absent | Registered string 'h jsval | Inert | Faulty

definition resolve :: "(string \<rightharpoonup> 'h) \<Rightarrow> string \<Rightarrow> jsval \<Rightarrow> 'h lookup" where
  "resolve registry k v = (case registry k of
       Some h \<Rightarrow> Registered k h v
     | None \<Rightarrow>
         if k \<in> set [''__proto__'', ''__defineGetter__'', ''__defineSetter__''] then Faulty
         else if k \<in> set [''hasOwnProperty'', ''propertyIsEnumerable'',
                   ''__lookupGetter__'', ''__lookupSetter__'']
           then (if property_key v = None then Faulty else Inert)
         else if k = ''toLocaleString''
           then (case registry ''toString'' of
                   Some h \<Rightarrow> Registered ''toString'' h JUndefined
                 | None \<Rightarrow> Inert)
         else if k \<in> set [''constructor'', ''isPrototypeOf'', ''toString'', ''valueOf'']
           then Inert
         else Absent)"

text \<open>\<^verbatim>\<open>start\<close> (lines 222-275): the connection handler is called with the session handle.\<close>

definition start :: "jsval \<Rightarrow> conn \<Rightarrow> conn outcome" where
  "start reconnectData st =
     run (script (handler st) reconnectData)
       (st\<lparr>invoked := invoked st @ [ConnectionHandler reconnectData]\<rparr>)"

text \<open>Dispatch of a parsed envelope (lines 183-200).\<close>

definition dispatch :: "jsval \<Rightarrow> conn \<Rightarrow> conn outcome" where
  "dispatch messageData st =
     (if messageData = JNull \<or> messageData = JUndefined then (Some TypeError, st)
      else if property messageData ''type'' = JStr ''connect'' then
        (if \<not> started st then start JNull (st\<lparr>started := True\<rparr>) else (None, st))
      else if property messageData ''type'' = JStr ''reconnect'' then
        (if \<not> started st then
           start (property messageData ''reconnectData'') (st\<lparr>started := True\<rparr>)
         else (None, st))
      else if property messageData ''type'' = JStr ''message'' then
        (case property_key (property messageData ''messageType'') of
           None \<Rightarrow> (Some TypeError, st)
         | Some k \<Rightarrow>
             (case resolve (messageHandlers st) k (property messageData ''message'') of
                Absent \<Rightarrow> (None, st)
              | Registered name h v \<Rightarrow>
                  run (script h v) (st\<lparr>invoked := invoked st @ [MessageHandler name v]\<rparr>)
              | Inert \<Rightarrow> (None, st)
              | Faulty \<Rightarrow> (Some TypeError, st)))
      else (None, st))"

text \<open>
  The end of a message (lines 173-203). \<open>parse\<close> stands for
  \<^verbatim>\<open>JSON.parse(payloadReceived.toString())\<close>, with \<open>None\<close> when it throws.
  \<open>Stop\<close> is a \<^verbatim>\<open>return\<close> or an exception that leaves the data handler.
\<close>

datatype step = Stop "conn outcome" | Go conn

definition deliver :: "(buffer \<Rightarrow> jsval option) \<Rightarrow> int \<Rightarrow> conn \<Rightarrow> step" where
  "deliver parse opcode st =
     (if opcode = 1 then
        (case parse (payloadReceived st) of
           None \<Rightarrow> Stop (close True st)
         | Some messageData \<Rightarrow>
             (case dispatch messageData st of
                (Some e, st') \<Rightarrow> Stop (Some e, st')
              | (None, st') \<Rightarrow> Go (st'\<lparr>payloadReceived := []\<rparr>)))
      else Go (st\<lparr>payloadReceived := []\<rparr>))"

text \<open>Dropping the bytes of the frame (lines 206-210).\<close>

definition free :: "int \<Rightarrow> conn \<Rightarrow> conn" where
  "free nextByteIndex st =
     (if int (length (dataReceived st)) = nextByteIndex then st\<lparr>dataReceived := []\<rparr>
      else st\<lparr>dataReceived := slice_from (dataReceived st) nextByteIndex\<rparr>)"

text \<open>One frame: unmasking, appending its payload, the end of a message (lines 161-203).\<close>

definition frame_step :: "(buffer \<Rightarrow> jsval option) \<Rightarrow> conn \<Rightarrow> step" where
  "frame_step parse st =
     (case frame_header (dataReceived st) of
        NeedMore \<Rightarrow> Stop (None, st)
      | CloseFrame \<Rightarrow> Stop (close True st)
      | Frame fin opcode masked payloadLength nextByteIndex maskingKey \<Rightarrow>
          (let st1 = (if masked then
                 st\<lparr>dataReceived := unmask (dataReceived st) nextByteIndex maskingKey payloadLength\<rparr>
               else st)
           in
           case Buffer_concat
                  [payloadReceived st1,
                   slice (dataReceived st1) (int nextByteIndex) (int nextByteIndex + payloadLength)]
                  (int (length (payloadReceived st1)) + payloadLength) of
             Inl e \<Rightarrow> Stop (Some e, st1)
           | Inr p \<Rightarrow>
               (case (if fin then deliver parse opcode (st1\<lparr>payloadReceived := p\<rparr>)
                      else Go (st1\<lparr>payloadReceived := p\<rparr>)) of
                  Stop r \<Rightarrow> Stop r
                | Go st3 \<Rightarrow> Go (free (int nextByteIndex + payloadLength) st3))))"

lemma frame_payload_Frame:
  "frame_payload d fin opcode masked n k = Frame fin' opcode' masked' n' k' key \<Longrightarrow>
     k \<le> k' \<and> int k' + n' \<le> int (length d)"
  by (auto simp: frame_payload_def split: if_splits)

lemma frame_header_Frame:
  assumes "frame_header d = Frame fin opcode masked n k key"
  shows "2 \<le> k" and "int k + n \<le> int (length d)"
  using assms
  by (auto simp: frame_header_def Let_def split: if_splits dest!: frame_payload_Frame)

lemma length_unmask [simp]: "length (unmask d k key n) = length d"
proof -
  have "length (fold (\<lambda>i b. b[k + i := (b ! (k + i)) XOR (key ! (i mod 4))]) is d) = length d" for "is"
    by (induction "is" arbitrary: d) simp_all
  then show ?thesis by (simp add: unmask_def)
qed

lemma dispatch_buffers:
  "payloadReceived (snd (dispatch m st)) = payloadReceived st"
  "dataReceived (snd (dispatch m st)) = dataReceived st \<or> dataReceived (snd (dispatch m st)) = []"
  using close_run_buffers(2) [of "script (handler st) JNull" "st\<lparr>started := True, invoked := invoked st @ [ConnectionHandler JNull]\<rparr>"]
    close_run_buffers(2) [of "script (handler st) (property m ''reconnectData'')"
       "st\<lparr>started := True, invoked := invoked st @ [ConnectionHandler (property m ''reconnectData'')]\<rparr>"]
    close_run_buffers(2) [of _ "st\<lparr>invoked := invoked st @ [MessageHandler _ _]\<rparr>"]
  by (auto simp: dispatch_def start_def split: option.splits lookup.splits)

lemma deliver_Go:
  assumes "deliver parse opcode st = Go st'"
  shows "payloadReceived st' = []"
    and "dataReceived st' = dataReceived st \<or> dataReceived st' = []"
  using assms dispatch_buffers [of _ st]
  by (auto simp: deliver_def split: if_splits option.splits prod.splits) (metis snd_conv)+

lemma length_free_le: "length (dataReceived (free k st)) \<le> length (dataReceived st)"
  by (simp add: free_def slice_from_def)

lemma payloadReceived_free [simp]: "payloadReceived (free k st) = payloadReceived st"
  by (simp add: free_def)

lemma length_free_less:
  "0 < k \<Longrightarrow> dataReceived st \<noteq> [] \<Longrightarrow> length (dataReceived (free k st)) < length (dataReceived st)"
  by (auto simp: free_def slice_from_def slice_index_def)

lemma Buffer_concat_Inr:
  "Buffer_concat bs len = Inr p \<Longrightarrow> 0 \<le> len \<and> int (length p) = len"
  by (auto simp: Buffer_concat_def split: if_splits)

lemma frame_step_decreases:
  assumes "frame_step parse st = Go st'"
  shows "length (dataReceived st') < length (dataReceived st) \<or>
         length (dataReceived st') \<le> length (dataReceived st) \<and>
         length (payloadReceived st') < length (payloadReceived st)"
proof (cases "frame_header (dataReceived st)")
  case NeedMore
  with assms show ?thesis by (simp add: frame_step_def)
next
  case CloseFrame
  with assms show ?thesis by (simp add: frame_step_def)
next
  case (Frame fin opcode masked n k key)
  define st1 where "st1 = (if masked then st\<lparr>dataReceived := unmask (dataReceived st) k key n\<rparr> else st)"
  have l1: "length (dataReceived st1) = length (dataReceived st)"
    and p1: "payloadReceived st1 = payloadReceived st"
    by (simp_all add: st1_def)
  have fs: "frame_step parse st =
      (case Buffer_concat [payloadReceived st1, slice (dataReceived st1) (int k) (int k + n)]
          (int (length (payloadReceived st1)) + n) of
         Inl e \<Rightarrow> Stop (Some e, st1)
       | Inr p \<Rightarrow>
           (case (if fin then deliver parse opcode (st1\<lparr>payloadReceived := p\<rparr>)
                  else Go (st1\<lparr>payloadReceived := p\<rparr>)) of
              Stop r \<Rightarrow> Stop r
            | Go st3 \<Rightarrow> Go (free (int k + n) st3)))"
    unfolding frame_step_def Frame header.case Let_def st1_def ..
  from assms obtain p where
    cc: "Buffer_concat [payloadReceived st1, slice (dataReceived st1) (int k) (int k + n)]
          (int (length (payloadReceived st1)) + n) = Inr p"
    unfolding fs by (auto split: sum.splits)
  from assms cc obtain st3 where
    d: "(if fin then deliver parse opcode (st1\<lparr>payloadReceived := p\<rparr>)
          else Go (st1\<lparr>payloadReceived := p\<rparr>)) = Go st3"
    and st': "st' = free (int k + n) st3"
    unfolding fs by (auto split: step.splits)
  have lp: "int (length p) = int (length (payloadReceived st)) + n"
    using Buffer_concat_Inr [OF cc] p1 by simp
  have d3: "dataReceived st3 = dataReceived st1 \<or> dataReceived st3 = []"
    using d deliver_Go(2) [of parse opcode "st1\<lparr>payloadReceived := p\<rparr>" st3]
    by (auto split: if_splits)
  have p3: "length (payloadReceived st3) \<le> length p"
    using d deliver_Go(1) [of parse opcode "st1\<lparr>payloadReceived := p\<rparr>" st3]
    by (auto split: if_splits)
  have k2: "2 \<le> k" and kn: "int k + n \<le> int (length (dataReceived st))"
    using frame_header_Frame [OF Frame] by simp_all
  show ?thesis
  proof (cases "0 \<le> n")
    case True
    then have pos: "0 < int k + n" using k2 by simp
    then have ne: "dataReceived st \<noteq> []" using kn by auto
    show ?thesis
    proof (cases "dataReceived st3 = []")
      case True
      then have "dataReceived st' = []" by (simp add: st' free_def slice_from_def)
      then show ?thesis using ne by simp
    next
      case False
      then have "length (dataReceived st') < length (dataReceived st3)"
        using length_free_less [OF pos False] st' by simp
      then show ?thesis using d3 l1 False by auto
    qed
  next
    case False
    then show ?thesis
      using lp p3 st' length_free_le [of "int k + n" st3] d3 l1 by auto
  qed
qed
text \<open>
  The loop of the data handler (lines 104-211): frames are taken from the front of
  the buffer until one is incomplete, the connection is closed, or an exception
  leaves the handler.
\<close>

function frames :: "(buffer \<Rightarrow> jsval option) \<Rightarrow> conn \<Rightarrow> conn outcome" where
  "frames parse st = (case frame_step parse st of Stop r \<Rightarrow> r | Go st' \<Rightarrow> frames parse st')"
  by pat_completeness auto

termination
proof (relation "inv_image (less_than <*lex*> less_than)
    (\<lambda>(parse, st). (length (dataReceived st), length (payloadReceived st)))", goal_cases)
  case 1
  show ?case by (intro wf_inv_image wf_lex_prod wf_less_than)
next
  case (2 parse st st')
  then show ?case using frame_step_decreases [of parse st st'] by auto
qed

declare frames.simps [simp del]

text \<open>The data handler (lines 95-212) and the handler of the socket's close event (lines 215-217).\<close>

definition on_data :: "(buffer \<Rightarrow> jsval option) \<Rightarrow> buffer \<Rightarrow> conn \<Rightarrow> conn outcome" where
  "on_data parse data st =
     (if closed st then (None, st)
      else frames parse (st\<lparr>dataReceived := dataReceived st @ data\<rparr>))"

definition on_close :: "conn \<Rightarrow> conn outcome" where
  "on_close st = close False st"

text \<open>\<^verbatim>\<open>close\<close> of the session handle (lines 263-273).\<close>

definition session_close :: "harg \<Rightarrow> conn \<Rightarrow> conn outcome" where
  "session_close h st =
     (case h of
        ArgOther \<Rightarrow> (Some (Thrown ''Invalid parameter: handler''), st)
      | ArgUndefined \<Rightarrow> close True st
      | _ \<Rightarrow> session_close_register h st)"

text \<open>The state of a connection right after the upgrade (lines 36-41).\<close>

definition new_conn :: "handler \<Rightarrow> conn" where
  "new_conn h = \<lparr>handler = h, started = False, closed = False, closeHandler = None,
     messageHandlers = Map.empty, dataReceived = [], payloadReceived = [], written = [],
     invoked = []\<rparr>"

section \<open>Server: what the operations change\<close>

text \<open>The frame that carries the close envelope.\<close>

definition close_frame :: buffer where
  \<open>close_frame = [129, 16] @ utf8 ''{"type":"close"}''\<close>

lemma sendMessage_close:
  "\<not> closed st \<Longrightarrow> sendMessage (JObj [(''type'', JStr ''close'')]) st
     = (None, st\<lparr>written := written st @ close_frame\<rparr>)"
  by (simp add: sendMessage_def toJSON_def json_quote_def json_escape_def payloadLengthBuffer_def
      socket_write_def close_frame_def)

lemma close_closed: "closed st \<Longrightarrow> close b st = (None, st)"
  by (simp add: close.simps)

lemma closed_mono:
  "closed st \<Longrightarrow> closed (snd (close b st))"
  "closed st \<Longrightarrow> closed (snd (run acts st))"
proof -
  let ?R = "\<lambda>a b. closed a \<longrightarrow> closed b"
  have "?R st (snd (close b st))" and "?R st (snd (run acts st))"
    by (rule close_run_rel [where R = ?R];
        simp add: session_send_closed session_receive_closed session_close_register_closed
          sendMessage_closed)+
  then show "closed st \<Longrightarrow> closed (snd (close b st))"
    and "closed st \<Longrightarrow> closed (snd (run acts st))" by simp_all
qed

definition is_connection_event :: "event \<Rightarrow> bool" where
  "is_connection_event e = (case e of ConnectionHandler v \<Rightarrow> True | _ \<Rightarrow> False)"

definition is_close_event :: "event \<Rightarrow> bool" where
  "is_close_event e = (case e of CloseHandler \<Rightarrow> True | _ \<Rightarrow> False)"

definition connection_events :: "conn \<Rightarrow> event list" where
  "connection_events st = filter is_connection_event (invoked st)"

definition close_events :: "conn \<Rightarrow> event list" where
  "close_events st = filter is_close_event (invoked st)"

lemma sendMessage_other [simp]:
  "started (snd (sendMessage m st)) = started st"
  "handler (snd (sendMessage m st)) = handler st"
  "invoked (snd (sendMessage m st)) = invoked st"
  "closeHandler (snd (sendMessage m st)) = closeHandler st"
  "messageHandlers (snd (sendMessage m st)) = messageHandlers st"
  "closed (snd (sendMessage m st)) = closed st"
  using sendMessage_fields [of m st] by auto

lemma session_send_other [simp]:
  "started (snd (session_send ty m st)) = started st"
  "handler (snd (session_send ty m st)) = handler st"
  "invoked (snd (session_send ty m st)) = invoked st"
  "closeHandler (snd (session_send ty m st)) = closeHandler st"
  "messageHandlers (snd (session_send ty m st)) = messageHandlers st"
  "closed (snd (session_send ty m st)) = closed st"
  by (simp_all add: session_send_def)

lemma session_receive_other [simp]:
  "started (snd (session_receive ty h st)) = started st"
  "handler (snd (session_receive ty h st)) = handler st"
  "invoked (snd (session_receive ty h st)) = invoked st"
  "closeHandler (snd (session_receive ty h st)) = closeHandler st"
  "written (snd (session_receive ty h st)) = written st"
  "closed (snd (session_receive ty h st)) = closed st"
  by (simp_all add: session_receive_def split: harg.splits)

lemma session_close_register_other [simp]:
  "started (snd (session_close_register h st)) = started st"
  "handler (snd (session_close_register h st)) = handler st"
  "invoked (snd (session_close_register h st)) = invoked st"
  "messageHandlers (snd (session_close_register h st)) = messageHandlers st"
  "written (snd (session_close_register h st)) = written st"
  "closed (snd (session_close_register h st)) = closed st"
  by (simp_all add: session_close_register_def split: harg.splits)

lemma session_send_closed_state:
  "closed st \<Longrightarrow> snd (session_send ty m st) = st \<and> fst (session_send ty m st) \<noteq> None"
  by (simp add: session_send_def)

text \<open>On a closed connection a callback writes nothing and no callback is called.\<close>

lemma closed_quiet:
  assumes "closed st"
  shows "closed (snd (close b st)) \<and> written (snd (close b st)) = written st
           \<and> invoked (snd (close b st)) = invoked st
           \<and> dataReceived (snd (close b st)) = dataReceived st"
    and "closed (snd (run acts st)) \<and> written (snd (run acts st)) = written st
           \<and> invoked (snd (run acts st)) = invoked st
           \<and> dataReceived (snd (run acts st)) = dataReceived st"
proof -
  let ?R = "\<lambda>a b. closed a \<longrightarrow> closed b \<and> written b = written a \<and> invoked b = invoked a
     \<and> dataReceived b = dataReceived a"
  have "?R st (snd (close b st))" and "?R st (snd (run acts st))"
    by (rule close_run_rel [where R = ?R]; simp add: session_send_closed_state)+
  with assms show "closed (snd (close b st)) \<and> written (snd (close b st)) = written st
           \<and> invoked (snd (close b st)) = invoked st
           \<and> dataReceived (snd (close b st)) = dataReceived st"
    and "closed (snd (run acts st)) \<and> written (snd (run acts st)) = written st
           \<and> invoked (snd (run acts st)) = invoked st
           \<and> dataReceived (snd (run acts st)) = dataReceived st" by simp_all
qed

lemma close_run_started:
  "started (snd (close b st)) = started st \<and> handler (snd (close b st)) = handler st
     \<and> connection_events (snd (close b st)) = connection_events st"
  "started (snd (run acts st)) = started st \<and> handler (snd (run acts st)) = handler st
     \<and> connection_events (snd (run acts st)) = connection_events st"
proof -
  let ?R = "\<lambda>a b. started b = started a \<and> handler b = handler a
     \<and> connection_events b = connection_events a"
  show "started (snd (close b st)) = started st \<and> handler (snd (close b st)) = handler st
     \<and> connection_events (snd (close b st)) = connection_events st"
    and "started (snd (run acts st)) = started st \<and> handler (snd (run acts st)) = handler st
     \<and> connection_events (snd (run acts st)) = connection_events st"
    by (rule close_run_rel [where R = ?R];
        simp add: connection_events_def is_connection_event_def)+
qed

definition close_inv :: "conn \<Rightarrow> bool" where
  "close_inv st = (if closed st then length (close_events st) \<le> 1 else close_events st = [])"

lemma close_run_close_inv:
  "close_inv st \<Longrightarrow> close_inv (snd (close b st))"
  "close_inv st \<Longrightarrow> close_inv (snd (run acts st))"
proof -
  let ?R = "\<lambda>a b. close_inv a \<longrightarrow> close_inv b"
  have "?R st (snd (close b st))" and "?R st (snd (run acts st))"
    by (rule close_run_rel [where R = ?R];
        (blast | simp add: close_inv_def close_events_def is_close_event_def))+
  then show "close_inv st \<Longrightarrow> close_inv (snd (close b st))"
    and "close_inv st \<Longrightarrow> close_inv (snd (run acts st))" by simp_all
qed

lemma on_data_rel:
  assumes rfl: "\<And>s. R s s"
    and trn: "\<And>a b c. R a b \<Longrightarrow> R b c \<Longrightarrow> R a c"
    and send: "\<And>ty m s. R s (snd (session_send ty m s))"
    and recv: "\<And>ty h s. R s (snd (session_receive ty h s))"
    and reg: "\<And>h s. R s (snd (session_close_register h s))"
    and msg: "\<And>s. \<not> closed s \<Longrightarrow> R s (snd (sendMessage (JObj [(''type'', JStr ''close'')]) s))"
    and mark: "\<And>s. \<not> closed s \<Longrightarrow> R s (s\<lparr>closed := True, dataReceived := []\<rparr>)"
    and call: "\<And>s. \<not> closed s \<Longrightarrow>
      R s (s\<lparr>closed := True, dataReceived := [], invoked := invoked s @ [CloseHandler]\<rparr>)"
    and buf: "\<And>s d p. R s (s\<lparr>dataReceived := d, payloadReceived := p\<rparr>)"
    and conn: "\<And>s rd. \<not> started s \<Longrightarrow>
      R s (s\<lparr>started := True, invoked := invoked s @ [ConnectionHandler rd]\<rparr>)"
    and msgh: "\<And>s k m. R s (s\<lparr>invoked := invoked s @ [MessageHandler k m]\<rparr>)"
  shows "R st (snd (frames parse st))" and "R st (snd (on_data parse d st))"
proof -
  have cl: "R s (snd (close b s))" and rn: "R s (snd (run acts s))" for s b acts
    by (rule close_run_rel [of R, OF rfl trn send recv reg msg mark call]; assumption)+
  have bd: "R s (s\<lparr>dataReceived := x\<rparr>)" and bp: "R s (s\<lparr>payloadReceived := y\<rparr>)" for s x y
    using buf [where s = s and d = x and p = "payloadReceived s"]
      buf [where s = s and d = "dataReceived s" and p = y] by simp_all
  have st: "R s (snd (start rd (s\<lparr>started := True\<rparr>)))" if "\<not> started s" for s rd
    using trn [OF conn [OF that, of rd] rn] by (simp add: start_def)
  have di: "R s (snd (dispatch m s))" for s m
    using rfl [of s] st [of s] trn [OF msgh rn]
    by (auto simp: dispatch_def split: option.splits lookup.splits)
  have de: "R s (case deliver prs op s of Stop r \<Rightarrow> snd r | Go s' \<Rightarrow> s')" for s op prs
  proof (cases "op = 1")
    case False
    then show ?thesis using bp by (simp add: deliver_def)
  next
    case True
    show ?thesis
    proof (cases "prs (payloadReceived s)")
      case None
      then show ?thesis using True cl by (simp add: deliver_def)
    next
      case (Some m)
      obtain e s' where d: "dispatch m s = (e, s')" by force
      then have "R s s'" using di [of s m] by simp
      then show ?thesis using True Some d trn [OF _ bp] by (cases e) (auto simp: deliver_def)
    qed
  qed
  have fr: "R s (free k s)" for s k
    using bd by (simp add: free_def)
  have fs: "R s (case frame_step prs s of Stop r \<Rightarrow> snd r | Go s' \<Rightarrow> s')" for s prs
  proof (cases "frame_header (dataReceived s)")
    case NeedMore
    then show ?thesis using rfl by (simp add: frame_step_def)
  next
    case CloseFrame
    then show ?thesis using cl by (simp add: frame_step_def)
  next
    case (Frame fin opcode masked n k key)
    define s1 where "s1 = (if masked then s\<lparr>dataReceived := unmask (dataReceived s) k key n\<rparr> else s)"
    have r1: "R s s1" using bd rfl by (simp add: s1_def)
    have eq: "frame_step prs s =
      (case Buffer_concat [payloadReceived s1, slice (dataReceived s1) (int k) (int k + n)]
          (int (length (payloadReceived s1)) + n) of
         Inl e \<Rightarrow> Stop (Some e, s1)
       | Inr p \<Rightarrow>
           (case (if fin then deliver prs opcode (s1\<lparr>payloadReceived := p\<rparr>)
                  else Go (s1\<lparr>payloadReceived := p\<rparr>)) of
              Stop r \<Rightarrow> Stop r
            | Go st3 \<Rightarrow> Go (free (int k + n) st3)))"
      unfolding frame_step_def Frame header.case Let_def s1_def ..
    show ?thesis
    proof (cases "Buffer_concat [payloadReceived s1, slice (dataReceived s1) (int k) (int k + n)]
          (int (length (payloadReceived s1)) + n)")
      case (Inl e)
      then show ?thesis using r1 by (simp add: eq)
    next
      case (Inr p)
      have r2: "R s (s1\<lparr>payloadReceived := p\<rparr>)" using trn [OF r1 bp] .
      show ?thesis
      proof (cases fin)
        case False
        then show ?thesis using Inr trn [OF r2 fr] by (simp add: eq)
      next
        case True
        show ?thesis
        proof (cases "deliver prs opcode (s1\<lparr>payloadReceived := p\<rparr>)")
          case (Stop r)
          then show ?thesis using Inr True trn [OF r2 de [where s = "s1\<lparr>payloadReceived := p\<rparr>" and op = opcode and prs = prs]]
            by (simp add: eq)
        next
          case (Go s3)
          then have "R s s3" using trn [OF r2 de [where s = "s1\<lparr>payloadReceived := p\<rparr>" and op = opcode and prs = prs]] by simp
          then show ?thesis using Inr True Go trn [OF _ fr] by (simp add: eq)
        qed
      qed
    qed
  qed
  have fm: "R s (snd (frames prs s))" for s prs
  proof (induction prs s rule: frames.induct)
    case (1 prs st)
    show ?case
    proof (cases "frame_step prs st")
      case (Stop r)
      then show ?thesis using fs [where s = st and prs = prs] by (simp add: frames.simps [of prs st])
    next
      case (Go s')
      then show ?thesis using fs [where s = st and prs = prs] 1 [OF Go] trn by (simp add: frames.simps [of prs st])
    qed
  qed
  show "R st (snd (frames parse st))" by (rule fm)
  show "R st (snd (on_data parse d st))"
    using rfl trn [OF bd fm] by (simp add: on_data_def)
qed

lemma close_open:
  assumes "\<not> closed st"
  shows "closed (snd (close b st))"
    and "written (snd (close b st)) = written st @ (if b then close_frame else [])"
    and "close_events (snd (close b st)) =
           close_events st @ (if closeHandler st = None then [] else [CloseHandler])"
proof -
  define st1 where "st1 = st\<lparr>written := written st @ (if b then close_frame else [])\<rparr>"
  have s: "(if b then sendMessage (JObj [(''type'', JStr ''close'')]) st else (None, st)) = (None, st1)"
    using assms by (simp add: sendMessage_close st1_def)
  define st2 where "st2 = st1\<lparr>closed := True, dataReceived := []\<rparr>"
  define st3 where "st3 = st2\<lparr>invoked := invoked st2 @ [CloseHandler]\<rparr>"
  have f: "closed st2" "written st2 = written st @ (if b then close_frame else [])"
    "invoked st2 = invoked st" "closed st3" "written st3 = written st2"
    "invoked st3 = invoked st @ [CloseHandler]"
    by (simp_all add: st1_def st2_def st3_def)
  have q: "closed (snd (run acts st3)) \<and> written (snd (run acts st3)) = written st3
      \<and> invoked (snd (run acts st3)) = invoked st3" for acts
    using closed_quiet(2) [OF f(4), of acts] by simp
  have main: "closed (snd (close b st))
    \<and> written (snd (close b st)) = written st @ (if b then close_frame else [])
    \<and> close_events (snd (close b st)) =
           close_events st @ (if closeHandler st = None then [] else [CloseHandler])"
  proof (cases "closeHandler st")
    case None
    then have "close b st = (None, st2)"
      using assms by (simp add: close.simps [of b st] s Let_def st1_def st2_def)
    then show ?thesis
      using None f by (simp add: close_events_def)
  next
    case (Some h)
    then have "close b st = run (script h JUndefined) st3"
      using assms by (simp add: close.simps [of b st] s Let_def st1_def st2_def st3_def)
    then show ?thesis
      using Some f q [of "script h JUndefined"]
      by (simp add: close_events_def is_close_event_def)
  qed
  from main show "closed (snd (close b st))"
    and "written (snd (close b st)) = written st @ (if b then close_frame else [])"
    and "close_events (snd (close b st)) =
           close_events st @ (if closeHandler st = None then [] else [CloseHandler])"
    by simp_all
qed

lemma slice_payload:
  assumes "0 \<le> n" and "int k + n \<le> int (length d)"
  shows "slice d (int k) (int k + n) = take (nat n) (drop k d)"
  using assms by (simp add: slice_def slice_index_def Let_def min_def nat_add_distrib)

lemma Buffer_concat_payload:
  assumes "0 \<le> n" and "int k + n \<le> int (length d)"
  shows "Buffer_concat [p, slice d (int k) (int k + n)] (int (length p) + n)
           = Inr (p @ take (nat n) (drop k d))"
proof -
  have l: "length (take (nat n) (drop k d)) = nat n"
    using assms by simp
  have "nat (int (length p) + n) = length p + nat n"
    using assms by (simp add: nat_add_distrib)
  then show ?thesis
    using assms l by (simp add: slice_payload Buffer_concat_def)
qed

lemma unmask_outside:
  "take k (unmask d k key n) = take k d"
  "drop (k + nat n) (unmask d k key n) = drop (k + nat n) d"
proof -
  have "take k (fold (\<lambda>i b. b[k + i := (b ! (k + i)) XOR (key ! (i mod 4))]) is d) = take k d" for "is"
    by (induction "is" arbitrary: d) simp_all
  then show "take k (unmask d k key n) = take k d" by (simp add: unmask_def)
  have "\<forall>i \<in> set is. i < m \<Longrightarrow>
     drop (k + m) (fold (\<lambda>i b. b[k + i := (b ! (k + i)) XOR (key ! (i mod 4))]) is d) = drop (k + m) d" for "is" m
    by (induction "is" arbitrary: d) simp_all
  from this [of "[0..<nat n]" "nat n"]
  show "drop (k + nat n) (unmask d k key n) = drop (k + nat n) d" by (simp add: unmask_def)
qed

lemma unmask_append:
  assumes "k + nat n \<le> length d"
  shows "unmask (d @ ys) k key n = unmask d k key n @ ys"
proof -
  have "\<forall>i \<in> set is. k + i < length d \<Longrightarrow>
     fold (\<lambda>i b. b[k + i := (b ! (k + i)) XOR (key ! (i mod 4))]) is (d @ ys)
       = fold (\<lambda>i b. b[k + i := (b ! (k + i)) XOR (key ! (i mod 4))]) is d @ ys" for "is"
    by (induction "is" arbitrary: d) (simp_all add: list_update_append nth_append)
  from this [of "[0..<nat n]"] assms show ?thesis by (simp add: unmask_def)
qed


section \<open>The length field of the encoder\<close>

text \<open>
  The length field as the wire format defines it: a length up to 125 in one byte;
  up to 65535 as the marker 126 and two bytes, most significant first; otherwise
  the marker 127 and eight bytes, most significant first.
\<close>

definition big_endian :: "nat \<Rightarrow> nat \<Rightarrow> buffer" where
  "big_endian width n = map (\<lambda>i. of_nat (n div 256 ^ (width - 1 - i))) [0..<width]"

definition three_tier_length :: "nat \<Rightarrow> buffer" where
  "three_tier_length n =
     (if n \<le> 125 then [of_nat n]
      else if n \<le> 65535 then 126 # big_endian 2 n
      else 127 # big_endian 8 n)"

lemma payloadLengthBuffer_small:
  "n < 126 \<Longrightarrow> payloadLengthBuffer n = Inr (three_tier_length n)"
  by (simp add: payloadLengthBuffer_def three_tier_length_def)

lemma low_byte: "(of_int (int n mod 256) :: byte) = of_nat n"
proof -
  have "(of_nat (n mod 256) :: byte) = of_nat n"
    by (simp add: word_of_nat_eq_iff take_bit_eq_mod)
  moreover have "int n mod 256 = int (n mod 256)"
    by (simp add: zmod_int)
  ultimately show ?thesis by (metis of_int_of_nat_eq)
qed

lemma high_byte: "(of_int (int n div 256) :: byte) = of_nat (n div 256)"
  by (metis int_ops(8) of_int_of_nat_eq of_nat_numeral)

lemma payloadLengthBuffer_medium:
  assumes "126 \<le> n" and "n < 65536"
  shows "payloadLengthBuffer n = Inr (three_tier_length n)"
  using assms
  by (simp add: payloadLengthBuffer_def three_tier_length_def big_endian_def upt_rec
      and_then_def writeUInt8_def writeUInt16BE_def new_Buffer_def low_byte high_byte
      numeral_3_eq_3)

lemma payloadLengthBuffer_large:
  "65536 \<le> n \<Longrightarrow> payloadLengthBuffer n = Inl RangeError"
  by (simp add: payloadLengthBuffer_def and_then_def writeUInt8_def writeUInt16BE_def
      new_Buffer_def)

text \<open>
  C3. For a text of 65536 characters the encoder does not produce the marker 127
  followed by the length in eight bytes: the length is handed to a 16-bit writer,
  which rejects it, and no length field is produced at all.
\<close>

theorem C3_length_field_65536:
  "payloadLengthBuffer 65536 = Inl RangeError \<and>
   three_tier_length 65536 = [127, 0, 0, 0, 0, 0, 1, 0, 0] \<and>
   payloadLengthBuffer 65536 \<noteq> Inr (three_tier_length 65536)"
  by (simp add: payloadLengthBuffer_large three_tier_length_def big_endian_def upt_rec)

section \<open>The 64-bit length of the decoder\<close>

text \<open>The unsigned big-endian value of a byte sequence, as the wire format reads a length.\<close>

definition uint_be :: "buffer \<Rightarrow> int" where
  "uint_be bs = foldl (\<lambda>a b. 256 * a + uint b) 0 bs"

lemma payloadLength64_eval:
  "payloadLength64 [130, 127, 0, 0, 0, 1, 0, 0, 0, 0] = 1"
  by (simp add: payloadLength64_def js_shl_def readUInt32BE_def)

text \<open>
  C4. A frame header with length code 127 whose eight length bytes are
  00 00 00 01 00 00 00 00 announces 4294967296 payload bytes. The decoder computes
  the length 1 from it: the shift by 32 leaves the upper word where it is, and
  the two words are added. With one byte behind the header the decoder takes the
  frame as complete.
\<close>

theorem C4_length_4GiB:
  "uint_be (take 8 (drop 2 [130, 127, 0, 0, 0, 1, 0, 0, 0, 0])) = 4294967296 \<and>
   payloadLength64 [130, 127, 0, 0, 0, 1, 0, 0, 0, 0] = 1 \<and>
   frame_header [130, 127, 0, 0, 0, 1, 0, 0, 0, 0, 7] = Frame True 2 False 1 10 []"
  by (simp add: uint_be_def frame_header_def frame_payload_def payloadLength64_def js_shl_def
      js_shr_def js_and_def readUInt32BE_def readUInt8_def)

section \<open>Encoding a long message\<close>

lemma json_quote_plain:
  "json_quote (replicate n (CHR ''a'')) = CHR 0x22 # replicate n (CHR ''a'') @ [CHR 0x22]"
proof -
  have "concat (replicate n (json_escape (CHR ''a''))) = replicate n (CHR ''a'')"
    by (induction n) (simp_all add: json_escape_def)
  then show ?thesis by (simp add: json_quote_def)
qed

lemma length_json_quote_plain: "length (json_quote (replicate n (CHR ''a''))) = n + 2"
  by (simp add: json_quote_plain)

text \<open>
  C1. The message is the string of 65534 letters \<open>a\<close>; its JSON text has 65536
  characters. \<^verbatim>\<open>sendMessage\<close> writes the first header byte and then throws:
  there is no frame whose decoding could give the message back.
\<close>

theorem C1_no_frame_at_65536:
  "sendMessage (JStr (replicate 65534 (CHR ''a''))) (new_conn (Handler (\<lambda>v. []))) =
     (Some RangeError, (new_conn (Handler (\<lambda>v. [])))\<lparr>written := [129]\<rparr>)"
  by (simp add: sendMessage_def length_json_quote_plain payloadLengthBuffer_large
      socket_write_def new_conn_def)

section \<open>Messages that are not envelopes\<close>

text \<open>
  The buffer after the frame at its front has been unmasked, and the payload of
  that frame (line 169).
\<close>

definition unmasked :: "buffer \<Rightarrow> buffer" where
  "unmasked d = (case frame_header d of
       Frame fin opcode masked n k key \<Rightarrow> (if masked then unmask d k key n else d)
     | _ \<Rightarrow> d)"

definition front_payload :: "buffer \<Rightarrow> buffer" where
  "front_payload d = (case frame_header d of
       Frame fin opcode masked n k key \<Rightarrow> slice (unmasked d) (int k) (int k + n)
     | _ \<Rightarrow> [])"

text \<open>A whole frame with a length that is not negative, step by step.\<close>

lemma frame_step_Frame:
  assumes "frame_header (dataReceived s) = Frame fin opcode masked n k key" and "0 \<le> n"
  shows "frame_step parse s =
     (case (if fin then
              deliver parse opcode (s\<lparr>dataReceived := unmasked (dataReceived s),
                payloadReceived := payloadReceived s @ front_payload (dataReceived s)\<rparr>)
            else Go (s\<lparr>dataReceived := unmasked (dataReceived s),
                payloadReceived := payloadReceived s @ front_payload (dataReceived s)\<rparr>)) of
        Stop r \<Rightarrow> Stop r
      | Go s3 \<Rightarrow> Go (free (int k + n) s3))"
proof -
  have kn: "int k + n \<le> int (length (unmasked (dataReceived s)))"
    using frame_header_Frame(2) [OF assms(1)] assms(1) by (simp add: unmasked_def)
  have fp: "front_payload (dataReceived s) = take (nat n) (drop k (unmasked (dataReceived s)))"
    using assms kn by (simp add: front_payload_def slice_payload)
  have cc: "Buffer_concat [payloadReceived s, slice (unmasked (dataReceived s)) (int k) (int k + n)]
           (int (length (payloadReceived s)) + n)
          = Inr (payloadReceived s @ front_payload (dataReceived s))"
    using Buffer_concat_payload [OF assms(2) kn] fp by simp
  show ?thesis
  proof (cases masked)
    case True
    then show ?thesis
      using assms(1) cc by (simp add: frame_step_def Let_def unmasked_def)
  next
    case False
    then show ?thesis
      using assms(1) cc by (simp add: frame_step_def Let_def unmasked_def)
  qed
qed

lemma free_drop:
  assumes "0 \<le> j"
  shows "free j s = s\<lparr>dataReceived := drop (nat j) (dataReceived s)\<rparr>"
  using assms by (auto simp: free_def slice_from_def slice_index_def min_def)

text \<open>
  The opcodes the wire format reserves: no frame that carries data or control
  information has one of them.
\<close>

definition reserved_opcode :: "int \<Rightarrow> bool" where
  "reserved_opcode opcode = (3 \<le> opcode \<and> opcode \<le> 7 \<or> 11 \<le> opcode \<and> opcode \<le> 15)"

text \<open>
  C9 (as amended). A final frame is at the front of the data of an open
  connection, and the decoder reads its payload length as a number that is not
  negative. If it is a text frame and the accumulated payload does not parse,
  the connection is closed and the close envelope is written to the socket. If
  its opcode is a reserved one, nothing is closed and nothing is written: the
  frame and the payload accumulated so far are dropped, and decoding goes on
  with the bytes behind the frame.
\<close>

theorem C9_parse_failure_closes:
  assumes "\<not> closed st"
    and "frame_header (dataReceived st @ data) = Frame True opcode masked n k key"
    and "0 \<le> n"
  shows "(opcode = 1 \<and> parse (payloadReceived st @ front_payload (dataReceived st @ data)) = None \<longrightarrow>
            closed (snd (on_data parse data st)) \<and>
            written (snd (on_data parse data st)) = written st @ close_frame)
       \<and> (reserved_opcode opcode \<longrightarrow>
            on_data parse data st =
              frames parse (st\<lparr>dataReceived := drop (k + nat n) (dataReceived st @ data),
                payloadReceived := []\<rparr>))"
proof -
  let ?d = "dataReceived st @ data"
  let ?s0 = "st\<lparr>dataReceived := ?d\<rparr>"
  let ?s2 = "st\<lparr>dataReceived := unmasked ?d,
     payloadReceived := payloadReceived st @ front_payload ?d\<rparr>"
  have od: "on_data parse data st = frames parse ?s0"
    using assms(1) by (simp add: on_data_def)
  have fs: "frame_step parse ?s0 =
     (case deliver parse opcode ?s2 of Stop r \<Rightarrow> Stop r | Go s3 \<Rightarrow> Go (free (int k + n) s3))"
    using frame_step_Frame [of ?s0 True opcode masked n k key parse] assms by simp
  have "closed (snd (on_data parse data st)) \<and>
        written (snd (on_data parse data st)) = written st @ close_frame"
    if "opcode = 1" and "parse (payloadReceived st @ front_payload ?d) = None"
  proof -
    have "deliver parse opcode ?s2 = Stop (close True ?s2)"
      using that by (simp add: deliver_def)
    then have "on_data parse data st = close True ?s2"
      by (simp add: od frames.simps [of parse ?s0] fs)
    then show ?thesis
      using close_open(1,2) [of ?s2 True] assms(1) by simp
  qed
  moreover have "on_data parse data st =
      frames parse (st\<lparr>dataReceived := drop (k + nat n) ?d, payloadReceived := []\<rparr>)"
    if "reserved_opcode opcode"
  proof -
    have "opcode \<noteq> 1" using that by (auto simp: reserved_opcode_def)
    then have "deliver parse opcode ?s2 = Go (?s2\<lparr>payloadReceived := []\<rparr>)"
      by (simp add: deliver_def)
    moreover have "drop (k + nat n) (unmasked ?d) = drop (k + nat n) ?d"
      using assms(2) by (simp add: unmasked_def unmask_outside)
    moreover have "free (int k + n) (?s2\<lparr>payloadReceived := []\<rparr>) =
        st\<lparr>dataReceived := drop (k + nat n) (unmasked ?d), payloadReceived := []\<rparr>"
      using assms(3) by (simp add: free_drop nat_add_distrib)
    ultimately show ?thesis
      by (simp add: od frames.simps [of parse ?s0] fs)
  qed
  ultimately show ?thesis by blast
qed

text \<open>
  C9, the claim as written: a final frame with the reserved opcode 3 and the
  payload \<open>abc\<close>, on a connection where no payload would parse. The frame is
  skipped, the connection stays open and nothing is sent.
\<close>

theorem C9_invalid_opcode_skipped:
  "on_data (\<lambda>b. None) [131, 3, 97, 98, 99] (new_conn (Handler (\<lambda>v. [])))
     = (None, new_conn (Handler (\<lambda>v. [])))
   \<and> \<not> closed (snd (on_data (\<lambda>b. None) [131, 3, 97, 98, 99] (new_conn (Handler (\<lambda>v. [])))))
   \<and> written (snd (on_data (\<lambda>b. None) [131, 3, 97, 98, 99] (new_conn (Handler (\<lambda>v. []))))) = []"
  by (simp add: on_data_def frames.simps frame_step_def frame_header_def frame_payload_def
      js_shr_def js_and_def readUInt8_def Buffer_concat_def slice_def slice_index_def
      deliver_def free_def new_conn_def)

text \<open>
  C9, instances: a text frame with the payload \<open>x\<close> that does not parse, and a
  frame with the reserved opcode 3 followed by one more byte.
\<close>

theorem C9_parse_failure_closes_witness:
  "closed (snd (on_data (\<lambda>b. None) [129, 1, 120] (new_conn (Handler (\<lambda>v. [])))))
   \<and> written (snd (on_data (\<lambda>b. None) [129, 1, 120] (new_conn (Handler (\<lambda>v. []))))) = close_frame
   \<and> on_data (\<lambda>b. None) [131, 1, 120, 129] (new_conn (Handler (\<lambda>v. [])))
       = frames (\<lambda>b. None) ((new_conn (Handler (\<lambda>v. [])))\<lparr>dataReceived := [129]\<rparr>)"
proof -
  have h1: "frame_header (dataReceived (new_conn (Handler (\<lambda>v. []))) @ [129, 1, 120])
      = Frame True 1 False 1 2 []"
    by (simp add: frame_header_def frame_payload_def js_shr_def js_and_def readUInt8_def
        new_conn_def)
  have h2: "frame_header (dataReceived (new_conn (Handler (\<lambda>v. []))) @ [131, 1, 120, 129])
      = Frame True 3 False 1 2 []"
    by (simp add: frame_header_def frame_payload_def js_shr_def js_and_def readUInt8_def
        new_conn_def)
  have o: "\<not> closed (new_conn (Handler (\<lambda>v. [])))" by (simp add: new_conn_def)
  have r: "reserved_opcode 3" by (simp add: reserved_opcode_def)
  show ?thesis
    using C9_parse_failure_closes [OF o h1, of "\<lambda>b. None"]
      C9_parse_failure_closes [OF o h2, of "\<lambda>b. None"] r
    by (simp add: new_conn_def)
qed


section \<open>Server: runs of a connection and the connection handler\<close>

text \<open>
  What happens to a connection from outside: bytes arrive, the socket closes, or
  the application performs session operations outside a callback (from a timer,
  say). A run applies such inputs in order; an exception that leaves a handler
  ends that handler, and the run goes on from the state it left.
\<close>

datatype input = Data buffer | SocketClose | Calls "action list"

definition serve_step :: "(buffer \<Rightarrow> jsval option) \<Rightarrow> input \<Rightarrow> conn \<Rightarrow> conn outcome" where
  "serve_step parse i st = (case i of
       Data d \<Rightarrow> on_data parse d st
     | SocketClose \<Rightarrow> on_close st
     | Calls acts \<Rightarrow> run acts st)"

fun serve :: "(buffer \<Rightarrow> jsval option) \<Rightarrow> input list \<Rightarrow> conn \<Rightarrow> conn" where
  "serve parse [] st = st"
| "serve parse (i # rest) st = serve parse rest (snd (serve_step parse i st))"

text \<open>The connection handler has been called once if the connection is started, and never before.\<close>

definition start_inv :: "conn \<Rightarrow> bool" where
  "start_inv st = (if started st then length (connection_events st) = 1
     else connection_events st = [])"

lemma serve_step_start_inv:
  assumes "start_inv st"
  shows "start_inv (snd (serve_step parse i st))"
proof -
  let ?R = "\<lambda>a b. start_inv a \<longrightarrow> start_inv b"
  have 1: "?R st (snd (close b st))" and 2: "?R st (snd (run acts st))" for b acts
    by (rule close_run_rel [where R = ?R];
        (blast | simp add: start_inv_def connection_events_def is_connection_event_def))+
  have 3: "?R st (snd (on_data parse d st))" for d
    by (rule on_data_rel(2) [where R = ?R];
        (blast | simp add: start_inv_def connection_events_def is_connection_event_def))
  show ?thesis
    using assms 1 2 3 by (cases i) (simp_all add: serve_step_def on_close_def)
qed

lemma serve_start_inv: "start_inv st \<Longrightarrow> start_inv (serve parse ins st)"
  by (induction ins arbitrary: st) (simp_all add: serve_step_start_inv)

lemma start_inv_new: "start_inv (new_conn h)"
  by (simp add: start_inv_def new_conn_def connection_events_def)

lemma start_events:
  "connection_events (snd (start rd (st\<lparr>started := True\<rparr>)))
     = connection_events st @ [ConnectionHandler rd]"
  "started (snd (start rd (st\<lparr>started := True\<rparr>)))"
  using close_run_started(2) [of "script (handler st) rd"
      "st\<lparr>started := True, invoked := invoked st @ [ConnectionHandler rd]\<rparr>"]
  by (simp_all add: start_def connection_events_def is_connection_event_def)

text \<open>
  In every run of a connection the connection handler is called at most once,
  and on a started connection an envelope of type \<open>connect\<close> or \<open>reconnect\<close>
  changes nothing.
\<close>

lemma connection_handler_at_most_once:
  "length (connection_events (serve parse ins (new_conn h))) \<le> 1"
proof -
  have "start_inv (serve parse ins (new_conn h))"
    by (rule serve_start_inv [OF start_inv_new])
  then show ?thesis
    by (simp add: start_inv_def split: if_splits)
qed

lemma dispatch_started:
  assumes "started st"
    and "property m ''type'' = JStr ''connect'' \<or> property m ''type'' = JStr ''reconnect''"
  shows "dispatch m st = (None, st)"
proof -
  have "m \<noteq> JNull \<and> m \<noteq> JUndefined"
    using assms(2) by (auto simp: property_def)
  then show ?thesis using assms by (auto simp: dispatch_def)
qed

lemma frames_started:
  "started st \<Longrightarrow> started (snd (frames parse st))
     \<and> connection_events (snd (frames parse st)) = connection_events st"
proof -
  let ?R = "\<lambda>a b. started a \<longrightarrow> started b \<and> connection_events b = connection_events a"
  have "?R st (snd (frames parse st))"
    by (rule on_data_rel(1) [where R = ?R];
        (blast | simp add: connection_events_def is_connection_event_def))
  then show "started st \<Longrightarrow> started (snd (frames parse st))
     \<and> connection_events (snd (frames parse st)) = connection_events st" by simp
qed

text \<open>
  An envelope of type \<open>connect\<close> or \<open>reconnect\<close> that arrives in one final text
  frame on a connection not yet started: the data handler marks the connection
  started and calls the connection handler, once, with \<open>null\<close> for \<open>connect\<close> and
  the member \<open>reconnectData\<close> for \<open>reconnect\<close>, whatever follows the frame in the
  buffer.
\<close>

definition reconnect_data :: "jsval \<Rightarrow> jsval" where
  "reconnect_data m = (if property m ''type'' = JStr ''connect'' then JNull
     else property m ''reconnectData'')"

lemma connect_in_one_frame:
  assumes "\<not> closed st" and "\<not> started st"
    and "frame_header (dataReceived st @ data) = Frame True 1 masked n k key"
    and "0 \<le> n"
    and "parse (payloadReceived st @ front_payload (dataReceived st @ data)) = Some m"
    and "property m ''type'' = JStr ''connect'' \<or> property m ''type'' = JStr ''reconnect''"
  shows "started (snd (on_data parse data st))
     \<and> connection_events (snd (on_data parse data st))
         = connection_events st @ [ConnectionHandler (reconnect_data m)]"
proof -
  let ?d = "dataReceived st @ data"
  let ?s0 = "st\<lparr>dataReceived := ?d\<rparr>"
  let ?s2 = "st\<lparr>dataReceived := unmasked ?d,
     payloadReceived := payloadReceived st @ front_payload ?d\<rparr>"
  have od: "on_data parse data st = frames parse ?s0"
    using assms(1) by (simp add: on_data_def)
  have fs: "frame_step parse ?s0 =
     (case deliver parse 1 ?s2 of Stop r \<Rightarrow> Stop r | Go s3 \<Rightarrow> Go (free (int k + n) s3))"
    using frame_step_Frame [of ?s0 True 1 masked n k key parse] assms(3,4) by simp
  have nn: "m \<noteq> JNull \<and> m \<noteq> JUndefined"
    using assms(6) by (auto simp: property_def)
  have di: "dispatch m ?s2 = start (reconnect_data m) (?s2\<lparr>started := True\<rparr>)"
    using assms(2,6) nn by (auto simp: dispatch_def reconnect_data_def)
  obtain e s3 where r: "start (reconnect_data m) (?s2\<lparr>started := True\<rparr>) = (e, s3)" by force
  have s3: "started s3"
    "connection_events s3 = connection_events st @ [ConnectionHandler (reconnect_data m)]"
    using start_events [of "reconnect_data m" ?s2] r by (simp_all add: connection_events_def)
  have de: "deliver parse 1 ?s2 =
      (case e of Some x \<Rightarrow> Stop (Some x, s3) | None \<Rightarrow> Go (s3\<lparr>payloadReceived := []\<rparr>))"
    using assms(5) di r by (simp add: deliver_def split: option.splits)
  show ?thesis
  proof (cases e)
    case (Some x)
    then have "on_data parse data st = (Some x, s3)"
      by (simp add: od frames.simps [of parse ?s0] fs de)
    then show ?thesis using s3 by simp
  next
    case None
    let ?s4 = "free (int k + n) (s3\<lparr>payloadReceived := []\<rparr>)"
    have "on_data parse data st = frames parse ?s4"
      using None by (simp add: od frames.simps [of parse ?s0] fs de)
    moreover have "started ?s4" "connection_events ?s4 = connection_events s3"
      using s3(1) by (simp_all add: free_def connection_events_def)
    ultimately show ?thesis
      using frames_started [of ?s4 parse] s3 by simp
  qed
qed

text \<open>
  A connect envelope in one frame, and the same envelope sent as two fragments:
  a text frame that is not final with the first nine characters, then a final
  continuation frame (opcode 0) with the other nine.
\<close>

definition connect_frame :: buffer where
  \<open>connect_frame = [129, 18] @ utf8 ''{"type":"connect"}''\<close>

definition connect_fragments :: buffer where
  \<open>connect_fragments = [1, 9] @ utf8 ''{"type":"'' @ [128, 9] @ utf8 ''connect"}''\<close>

definition parse_connect :: "buffer \<Rightarrow> jsval option" where
  \<open>parse_connect b = (if b = utf8 ''{"type":"connect"}''
     then Some (JObj [(''type'', JStr ''connect'')]) else None)\<close>

lemma two_connects:
  "connection_events (serve parse_connect [Data (connect_frame @ connect_frame)]
      (new_conn (Handler (\<lambda>v. [])))) = [ConnectionHandler JNull]"
  by (simp add: serve_step_def on_data_def frames.simps frame_step_def frame_header_def
      frame_payload_def js_shr_def js_and_def readUInt8_def Buffer_concat_def slice_def
      slice_index_def slice_from_def deliver_def free_def new_conn_def connect_frame_def
      parse_connect_def utf8_def utf8_unit_def dispatch_def property_def start_def
      script_def connection_events_def is_connection_event_def)

text \<open>
  C7. The connect envelope arrives in two fragments on a new connection. The
  decoder puts the two payloads together, and the text it has at the final
  frame is the envelope. It looks at the opcode of the final frame only, which
  is 0, and drops the message: the connection handler is not called and the
  connection is not started. The same envelope in one frame calls the handler.
\<close>

theorem C7_fragmented_connect_dropped:
  \<open>parse_connect (utf8 ''{"type":"'' @ utf8 ''connect"}'') = Some (JObj [(''type'', JStr ''connect'')])
   \<and> on_data parse_connect connect_fragments (new_conn (Handler (\<lambda>v. [])))
       = (None, new_conn (Handler (\<lambda>v. [])))
   \<and> connection_events (snd (on_data parse_connect connect_fragments
        (new_conn (Handler (\<lambda>v. []))))) = []
   \<and> \<not> started (snd (on_data parse_connect connect_fragments (new_conn (Handler (\<lambda>v. [])))))
   \<and> connection_events (snd (on_data parse_connect connect_frame
        (new_conn (Handler (\<lambda>v. []))))) = [ConnectionHandler JNull]\<close>
  by (simp add: on_data_def frames.simps frame_step_def frame_header_def
      frame_payload_def js_shr_def js_and_def readUInt8_def Buffer_concat_def slice_def
      slice_index_def slice_from_def deliver_def free_def new_conn_def connect_frame_def
      connect_fragments_def parse_connect_def utf8_def utf8_unit_def dispatch_def property_def
      start_def script_def connection_events_def is_connection_event_def)



section \<open>Data that arrives in chunks\<close>

text \<open>While the frame at the front of the buffer is incomplete, the data handler keeps every byte.\<close>

lemma partial_frame_retained:
  assumes "\<not> closed st" and "frame_header (dataReceived st @ data) = NeedMore"
  shows "on_data parse data st = (None, st\<lparr>dataReceived := dataReceived st @ data\<rparr>)"
  using assms
  by (simp add: on_data_def frame_step_def frames.simps [of parse "st\<lparr>dataReceived := dataReceived st @ data\<rparr>"])

text \<open>
  What closing and the callbacks do does not depend on the bytes waiting in
  \<open>dataReceived\<close>: they leave the buffer alone, except that closing empties it.
  \<open>rebuffer x s s'\<close> is the state reached in place of \<open>s'\<close> when the buffer of the
  start state \<open>s\<close> is replaced by \<open>x\<close>.
\<close>

definition rebuffer :: "buffer \<Rightarrow> conn \<Rightarrow> conn \<Rightarrow> conn" where
  "rebuffer x s s' = (if closed s' \<and> \<not> closed s then s' else s'\<lparr>dataReceived := x\<rparr>)"

lemma sendMessage_rebuffer:
  "sendMessage m (s\<lparr>dataReceived := x\<rparr>)
     = (fst (sendMessage m s), (snd (sendMessage m s))\<lparr>dataReceived := x\<rparr>)"
  by (simp add: sendMessage_def socket_write_def Let_def split: option.splits sum.splits)

lemma ops_rebuffer:
  "session_send ty m (s\<lparr>dataReceived := x\<rparr>)
     = (fst (session_send ty m s), (snd (session_send ty m s))\<lparr>dataReceived := x\<rparr>)"
  "session_receive ty h (s\<lparr>dataReceived := x\<rparr>)
     = (fst (session_receive ty h s), (snd (session_receive ty h s))\<lparr>dataReceived := x\<rparr>)"
  "session_close_register h (s\<lparr>dataReceived := x\<rparr>)
     = (fst (session_close_register h s), (snd (session_close_register h s))\<lparr>dataReceived := x\<rparr>)"
  by (simp_all add: session_send_def sendMessage_rebuffer session_receive_def
      session_close_register_def split: harg.splits)

lemma close_rebuffer:
  "close b (s\<lparr>dataReceived := x\<rparr>) = (fst (close b s), rebuffer x s (snd (close b s)))"
proof (cases "closed s")
  case True
  then show ?thesis by (simp add: close.simps rebuffer_def)
next
  case False
  have c: "closed (snd (close b s))" by (rule close_open(1) [OF False])
  have e: "s\<lparr>dataReceived := x, written := w, closed := True, dataReceived := []\<rparr>
      = s\<lparr>written := w, closed := True, dataReceived := []\<rparr>" for w
    by simp
  have e': "s\<lparr>dataReceived := x, closed := True, dataReceived := []\<rparr>
      = s\<lparr>closed := True, dataReceived := []\<rparr>"
    by simp
  have "close b (s\<lparr>dataReceived := x\<rparr>) = close b s"
    using False
    by (cases b; cases "closeHandler s")
       (simp_all add: close.simps [of _ s] close.simps [of _ "s\<lparr>dataReceived := x\<rparr>"]
        sendMessage_close Let_def e e')
  then show ?thesis using c False by (simp add: rebuffer_def)
qed

lemma rebuffer_same_closed:
  "closed s1 = closed s \<Longrightarrow> rebuffer x s1 s' = rebuffer x s s'"
  by (simp add: rebuffer_def)

lemma run_rebuffer:
  "run acts (s\<lparr>dataReceived := x\<rparr>) = (fst (run acts s), rebuffer x s (snd (run acts s)))"
proof (induction acts arbitrary: s)
  case Nil
  show ?case by (simp add: rebuffer_def)
next
  case (Cons a rest)
  have step: "(case op (s\<lparr>dataReceived := x\<rparr>) of
            (Some e, st') \<Rightarrow> (Some e, st') | (None, st') \<Rightarrow> run rest st')
        = (fst (case op s of (Some e, st') \<Rightarrow> (Some e, st') | (None, st') \<Rightarrow> run rest st'),
           rebuffer x s (snd (case op s of (Some e, st') \<Rightarrow> (Some e, st')
              | (None, st') \<Rightarrow> run rest st')))"
    if o: "op (s\<lparr>dataReceived := x\<rparr>) = (fst (op s), (snd (op s))\<lparr>dataReceived := x\<rparr>)"
      and c: "closed (snd (op s)) = closed s"
    for op :: "conn \<Rightarrow> conn outcome"
  proof -
    obtain e s1 where r: "op s = (e, s1)" by force
    have c1: "closed s1 = closed s" using c r by simp
    show ?thesis
    proof (cases e)
      case None
      then show ?thesis
        using o r Cons [of s1] rebuffer_same_closed [OF c1] by simp
    next
      case (Some ex)
      then show ?thesis using o r c1 by (simp add: rebuffer_def)
    qed
  qed
  show ?case
  proof (cases a)
    case (Send ty m)
    then show ?thesis
      using step [of "session_send ty m"] by (simp add: ops_rebuffer)
  next
    case (Receive ty h)
    then show ?thesis
      using step [of "session_receive ty h"] by (simp add: ops_rebuffer)
  next
    case (Close h)
    have reg: ?thesis if "h \<noteq> ArgUndefined"
      using that Close step [of "session_close_register h"]
      by (cases h) (simp_all add: ops_rebuffer)
    show ?thesis
    proof (cases "h = ArgUndefined")
      case False
      then show ?thesis by (rule reg)
    next
      case True
      obtain e s1 where r: "close True s = (e, s1)" by force
      have c1: "closed s1"
        using close_open(1) [of s True] close_closed [of s True] r by (cases "closed s") simp_all
      have x: "close True (s\<lparr>dataReceived := x\<rparr>) = (e, rebuffer x s s1)"
        using close_rebuffer [where b = True and s = s and x = x] r by simp
      show ?thesis
      proof (cases e)
        case (Some ex)
        then show ?thesis using Close True r x by simp
      next
        case None
        show ?thesis
        proof (cases "closed s")
          case False
          then have "rebuffer x s s1 = s1" using c1 by (simp add: rebuffer_def)
          moreover have "rebuffer x s (snd (run rest s1)) = snd (run rest s1)"
            using closed_mono(2) [OF c1, of rest] False by (simp add: rebuffer_def)
          ultimately show ?thesis using Close True r x None by simp
        next
          case c: True
          then have "s1 = s" using r by (simp add: close_closed)
          then show ?thesis
            using Close True r x None c Cons [of s] by (simp add: rebuffer_def)
        qed
      qed
    qed
  qed
qed

lemma dispatch_rebuffer:
  "dispatch m (s\<lparr>dataReceived := x\<rparr>)
     = (fst (dispatch m s), rebuffer x s (snd (dispatch m s)))"
proof -
  have st: "start rd (s\<lparr>dataReceived := x, started := True\<rparr>)
      = (fst (start rd (s\<lparr>started := True\<rparr>)), rebuffer x s (snd (start rd (s\<lparr>started := True\<rparr>))))" for rd
  proof -
    have e: "s\<lparr>dataReceived := x, started := True,
          invoked := invoked s @ [ConnectionHandler rd]\<rparr>
        = s\<lparr>started := True, invoked := invoked s @ [ConnectionHandler rd],
            dataReceived := x\<rparr>" by simp
    show ?thesis
      using run_rebuffer [where acts = "script (handler s) rd" and x = x
          and s = "s\<lparr>started := True, invoked := invoked s @ [ConnectionHandler rd]\<rparr>"]
      by (simp add: start_def e rebuffer_def)
  qed
  have mh: "run (script h v) (s\<lparr>dataReceived := x, invoked := invoked s @ [MessageHandler k v]\<rparr>)
      = (fst (run (script h v) (s\<lparr>invoked := invoked s @ [MessageHandler k v]\<rparr>)),
         rebuffer x s (snd (run (script h v) (s\<lparr>invoked := invoked s @ [MessageHandler k v]\<rparr>))))"
    for h v k
  proof -
    have e: "s\<lparr>dataReceived := x, invoked := invoked s @ [MessageHandler k v]\<rparr>
        = s\<lparr>invoked := invoked s @ [MessageHandler k v], dataReceived := x\<rparr>" by simp
    show ?thesis
      using run_rebuffer [where acts = "script h v" and x = x
          and s = "s\<lparr>invoked := invoked s @ [MessageHandler k v]\<rparr>"]
      by (simp add: e rebuffer_def)
  qed
  have id: "rebuffer x s s = s\<lparr>dataReceived := x\<rparr>" by (simp add: rebuffer_def)
  show ?thesis
    by (simp add: dispatch_def st mh id split: option.splits lookup.splits)
qed

text \<open>The same for the end of a message.\<close>

definition map_step :: "(conn \<Rightarrow> conn) \<Rightarrow> step \<Rightarrow> step" where
  "map_step f r = (case r of Stop (e, s) \<Rightarrow> Stop (e, f s) | Go s \<Rightarrow> Go (f s))"

lemma deliver_rebuffer:
  "deliver parse opcode (s\<lparr>dataReceived := x\<rparr>) = map_step (rebuffer x s) (deliver parse opcode s)"
proof (cases "opcode = 1")
  case False
  have "s\<lparr>dataReceived := x, payloadReceived := []\<rparr> = s\<lparr>payloadReceived := [], dataReceived := x\<rparr>"
    by simp
  then show ?thesis using False by (simp add: deliver_def map_step_def rebuffer_def)
next
  case True
  show ?thesis
  proof (cases "parse (payloadReceived s)")
    case None
    then show ?thesis
      using True close_rebuffer [where b = True and s = s and x = x]
      by (cases "close True s") (simp add: deliver_def map_step_def)
  next
    case (Some m)
    obtain e s' where d: "dispatch m s = (e, s')" by force
    have p: "(rebuffer x s s')\<lparr>payloadReceived := []\<rparr> = rebuffer x s (s'\<lparr>payloadReceived := []\<rparr>)"
      by (simp add: rebuffer_def)
    show ?thesis
      using True Some d dispatch_rebuffer [where m = m and s = s and x = x] p
      by (cases e) (simp_all add: deliver_def map_step_def)
  qed
qed

text \<open>
  A whole frame at the front of the buffer is read the same way when more bytes
  follow it.
\<close>

lemma read_append:
  "i < length d \<Longrightarrow> readUInt8 (d @ b) i = readUInt8 d i"
  "i + 2 \<le> length d \<Longrightarrow> readUInt16BE (d @ b) i = readUInt16BE d i"
  "i + 4 \<le> length d \<Longrightarrow> readUInt32BE (d @ b) i = readUInt32BE d i"
  by (simp_all add: readUInt8_def readUInt16BE_def readUInt32BE_def nth_append)

lemma payloadLength64_append:
  "10 \<le> length d \<Longrightarrow> payloadLength64 (d @ b) = payloadLength64 d"
  by (simp add: payloadLength64_def read_append)

lemma slice_append:
  assumes "0 \<le> i" and "i \<le> j" and "j \<le> int (length d)"
  shows "slice (d @ b) i j = slice d i j"
proof -
  have "nat j \<le> length d" "nat i \<le> nat j" using assms by simp_all
  then show ?thesis
    using assms by (simp add: slice_def slice_index_def Let_def min_def)
qed

lemma frame_payload_append:
  assumes "frame_payload d fin opcode masked n k = Frame fin' opcode' masked' n' k' key"
  shows "frame_payload (d @ b) fin opcode masked n k = Frame fin' opcode' masked' n' k' key"
  using assms
  by (auto simp: frame_payload_def slice_append split: if_splits)

lemma frame_header_append:
  "frame_header d = Frame fin opcode masked n k key \<Longrightarrow>
     frame_header (d @ b) = Frame fin opcode masked n k key"
  "frame_header d = CloseFrame \<Longrightarrow> frame_header (d @ b) = CloseFrame"
proof -
  assume f: "frame_header d = Frame fin opcode masked n k key"
  then have l: "2 \<le> length d"
    by (auto simp: frame_header_def Let_def split: if_splits)
  show "frame_header (d @ b) = Frame fin opcode masked n k key"
    using f l
    by (auto simp: frame_header_def Let_def read_append payloadLength64_append
        split: if_splits intro!: frame_payload_append)
next
  assume "frame_header d = CloseFrame"
  then show "frame_header (d @ b) = CloseFrame"
    by (auto simp: frame_header_def Let_def read_append frame_payload_def split: if_splits)
qed

text \<open>
  One frame of the decoder, with and without the bytes \<open>b\<close> behind the buffer:
  the two steps end alike, and the states they reach differ by \<open>b\<close> at the end
  of the buffer of an open connection.
\<close>

definition ext :: "buffer \<Rightarrow> conn \<Rightarrow> conn" where
  "ext b s = (if closed s then s else s\<lparr>dataReceived := dataReceived s @ b\<rparr>)"

lemma unmasked_append:
  assumes "frame_header d = Frame fin opcode masked n k key" and "0 \<le> n"
  shows "unmasked (d @ b) = unmasked d @ b" and "front_payload (d @ b) = front_payload d"
proof -
  have kn: "k + nat n \<le> length d"
    using frame_header_Frame(2) [OF assms(1)] assms(2) by simp
  show u: "unmasked (d @ b) = unmasked d @ b"
    using assms(1) frame_header_append(1) [OF assms(1), of b] kn
    by (simp add: unmasked_def unmask_append)
  have l: "length (unmasked d) = length d"
    using assms(1) by (simp add: unmasked_def)
  have "slice (unmasked d @ b) (int k) (int k + n) = slice (unmasked d) (int k) (int k + n)"
    using kn assms(2) l by (intro slice_append) simp_all
  then show "front_payload (d @ b) = front_payload d"
    using assms(1) frame_header_append(1) [OF assms(1), of b] u
    by (simp add: front_payload_def)
qed

lemma deliver_Stop_closed:
  assumes "deliver parse opcode s = Stop (None, s')"
  shows "closed s'"
proof -
  have "closed (snd (close True s))"
    using close_open(1) [of s True] close_closed [of s True] by (cases "closed s") simp_all
  then show ?thesis
    using assms by (auto simp: deliver_def split: if_splits option.splits prod.splits)
qed

lemma deliver_data:
  assumes "deliver parse opcode s = Stop (e, s') \<or> deliver parse opcode s = Go s'"
    and "\<not> closed s"
  shows "dataReceived s' = (if closed s' then [] else dataReceived s)"
proof (cases "closed s'")
  case False
  have "s\<lparr>dataReceived := dataReceived s\<rparr> = s" by simp
  then have "deliver parse opcode s = map_step (rebuffer (dataReceived s) s) (deliver parse opcode s)"
    using deliver_rebuffer [where s = s and x = "dataReceived s" and parse = parse and opcode = opcode]
    by simp
  then have "s' = rebuffer (dataReceived s) s s'"
    using assms(1) by (auto simp: map_step_def)
  then have "s' = s'\<lparr>dataReceived := dataReceived s\<rparr>"
    using False by (simp add: rebuffer_def)
  then have "dataReceived s' = dataReceived (s'\<lparr>dataReceived := dataReceived s\<rparr>)" by simp
  then show ?thesis using False by simp
next
  case True
  have r: "deliver parse opcode (s\<lparr>dataReceived := []\<rparr>)
      = map_step (rebuffer [] s) (deliver parse opcode s)"
    by (rule deliver_rebuffer)
  have i: "rebuffer [] s s' = s'" using True assms(2) by (simp add: rebuffer_def)
  show ?thesis
  proof (cases "deliver parse opcode s = Go s'")
    case g: True
    then have "deliver parse opcode (s\<lparr>dataReceived := []\<rparr>) = Go s'"
      using r i by (simp add: map_step_def)
    from deliver_Go(2) [OF this] show ?thesis using True by simp
  next
    case False
    then have st: "deliver parse opcode s = Stop (e, s')" using assms(1) by simp
    then have st0: "deliver parse opcode (s\<lparr>dataReceived := []\<rparr>) = Stop (e, s')"
      using r i by (simp add: map_step_def)
    have c: "dataReceived (snd (close True (s\<lparr>dataReceived := []\<rparr>))) = []"
      using close_run_buffers(1) [of True "s\<lparr>dataReceived := []\<rparr>"] by auto
    have d: "dataReceived (snd (dispatch m (s\<lparr>dataReceived := []\<rparr>))) = []" for m
      using dispatch_buffers(2) [of m "s\<lparr>dataReceived := []\<rparr>"] by auto
    show ?thesis
      using st0 c d True
      by (auto simp: deliver_def split: if_splits option.splits prod.splits) (metis snd_conv)+
  qed
qed

lemma frame_step_ext:
  assumes "\<not> closed s"
    and "frame_header (dataReceived s) = Frame fin opcode masked n k key"
    and "0 \<le> n"
  shows "frame_step parse (s\<lparr>dataReceived := dataReceived s @ b\<rparr>)
     = map_step (ext b) (frame_step parse s)"
proof -
  let ?d = "dataReceived s"
  let ?u = "unmasked ?d"
  let ?s2 = "s\<lparr>dataReceived := ?u, payloadReceived := payloadReceived s @ front_payload ?d\<rparr>"
  let ?x = "?u @ b"
  let ?r = "if fin then deliver parse opcode ?s2 else Go ?s2"
  have kn: "k + nat n \<le> length ?u"
    using frame_header_Frame(2) [OF assms(2)] assms(2,3) by (simp add: unmasked_def)
  have c2: "\<not> closed ?s2" using assms(1) by simp
  have a: "frame_step parse s =
      (case ?r of Stop r \<Rightarrow> Stop r | Go s3 \<Rightarrow> Go (free (int k + n) s3))"
    using frame_step_Frame [OF assms(2,3)] by simp
  let ?sb = "s\<lparr>dataReceived := ?d @ b\<rparr>"
  have h: "frame_header (dataReceived ?sb) = Frame fin opcode masked n k key"
    using frame_header_append(1) [OF assms(2), of b] by simp
  have e2: "?sb\<lparr>dataReceived := unmasked (dataReceived ?sb),
        payloadReceived := payloadReceived ?sb @ front_payload (dataReceived ?sb)\<rparr>
      = ?s2\<lparr>dataReceived := ?x\<rparr>"
    using unmasked_append [OF assms(2,3), of b] by simp
  have b: "frame_step parse ?sb =
      (case (if fin then deliver parse opcode (?s2\<lparr>dataReceived := ?x\<rparr>)
             else Go (?s2\<lparr>dataReceived := ?x\<rparr>)) of
         Stop r \<Rightarrow> Stop r | Go s3 \<Rightarrow> Go (free (int k + n) s3))"
    using frame_step_Frame [OF h assms(3), of parse] unfolding e2 .
  have r': "(if fin then deliver parse opcode (?s2\<lparr>dataReceived := ?x\<rparr>)
             else Go (?s2\<lparr>dataReceived := ?x\<rparr>)) = map_step (rebuffer ?x ?s2) ?r"
  proof (cases fin)
    case True
    show ?thesis
      using deliver_rebuffer [where s = ?s2 and x = ?x and parse = parse and opcode = opcode]
      by (simp only: True if_True)
  next
    case False
    have "rebuffer ?x ?s2 ?s2 = ?s2\<lparr>dataReceived := ?x\<rparr>"
      unfolding rebuffer_def by simp
    then have "map_step (rebuffer ?x ?s2) (Go ?s2) = Go (?s2\<lparr>dataReceived := ?x\<rparr>)"
      unfolding map_step_def by (simp only: step.case)
    then show ?thesis by (simp only: False if_False)
  qed
  have K: "dataReceived s3 = (if closed s3 then [] else ?u)" if "?r = Stop (e, s3) \<or> ?r = Go s3" for e s3
  proof (cases fin)
    case True
    then show ?thesis using that deliver_data [of parse opcode ?s2 e s3] c2 by simp
  next
    case False
    then show ?thesis using that assms(1) by auto
  qed
  have re: "rebuffer ?x ?s2 s3 = ext b s3" if "?r = Stop (e, s3) \<or> ?r = Go s3" for e s3
    using K [OF that] c2 by (simp add: rebuffer_def ext_def)
  have fr: "free (int k + n) (ext b s3) = ext b (free (int k + n) s3)" if "?r = Go s3" for s3
  proof (cases "closed s3")
    case True
    then show ?thesis by (simp add: ext_def free_def)
  next
    case False
    then have d3: "dataReceived s3 = ?u" using K [of undefined s3] that by simp
    have p: "0 \<le> int k + n" using assms(3) by simp
    have "nat (int k + n) = k + nat n" using assms(3) by (simp add: nat_add_distrib)
    then show ?thesis
      using False d3 kn by (simp add: ext_def free_drop [OF p])
  qed
  show ?thesis
  proof (cases ?r)
    case (Stop r)
    obtain e s3 where r: "r = (e, s3)" by force
    show ?thesis
      unfolding a b r' using Stop r re [of e s3] by (simp add: map_step_def)
  next
    case (Go s3)
    show ?thesis
      unfolding a b r' using Go re [of undefined s3] fr [of s3] by (simp add: map_step_def)
  qed
qed

text \<open>
  The decoder reads no negative payload length on its way through the buffer.
  (The 64-bit form of the length can be read as a negative number.)
\<close>

function lengths_ok :: "(buffer \<Rightarrow> jsval option) \<Rightarrow> conn \<Rightarrow> bool" where
  "lengths_ok parse st =
     ((case frame_header (dataReceived st) of
         Frame fin opcode masked n k key \<Rightarrow> 0 \<le> n
       | _ \<Rightarrow> True)
      \<and> (case frame_step parse st of Stop r \<Rightarrow> True | Go st' \<Rightarrow> lengths_ok parse st'))"
  by pat_completeness auto

termination
proof (relation "inv_image (less_than <*lex*> less_than)
    (\<lambda>(parse, st). (length (dataReceived st), length (payloadReceived st)))", goal_cases)
  case 1
  show ?case by (intro wf_inv_image wf_lex_prod wf_less_than)
next
  case (2 parse st st')
  then show ?case using frame_step_decreases [of parse st st'] by auto
qed

declare lengths_ok.simps [simp del]

text \<open>
  Decoding a buffer with the bytes \<open>b\<close> behind it is decoding the buffer and, if
  no exception has left the loop and the connection is open, going on with \<open>b\<close>
  appended to what is left.
\<close>

lemma frames_ext:
  assumes "\<not> closed s" and "lengths_ok parse s"
  shows "frames parse (s\<lparr>dataReceived := dataReceived s @ b\<rparr>) =
     (case frames parse s of
        (None, s') \<Rightarrow> if closed s' then (None, s')
                      else frames parse (s'\<lparr>dataReceived := dataReceived s' @ b\<rparr>)
      | (Some e, s') \<Rightarrow> (Some e, ext b s'))"
  using assms
proof (induction parse s rule: frames.induct)
  case (1 parse s)
  let ?sb = "s\<lparr>dataReceived := dataReceived s @ b\<rparr>"
  show ?case
  proof (cases "frame_header (dataReceived s)")
    case NeedMore
    then have "frames parse s = (None, s)"
      by (simp add: frames.simps [of parse s] frame_step_def)
    then show ?thesis using "1.prems"(1) by simp
  next
    case CloseFrame
    obtain e s' where c: "close True s = (e, s')" by force
    have cl: "closed s'" using close_open(1) [OF "1.prems"(1), of True] c by simp
    have "frames parse s = (e, s')"
      using CloseFrame c by (simp add: frames.simps [of parse s] frame_step_def)
    moreover have "frames parse ?sb = (e, s')"
      using frame_header_append(2) [OF CloseFrame, of b] c cl "1.prems"(1)
        close_rebuffer [where b = True and s = s and x = "dataReceived s @ b"]
      by (simp add: frames.simps [of parse ?sb] frame_step_def rebuffer_def)
    ultimately show ?thesis using cl by (cases e) (simp_all add: ext_def)
  next
    case (Frame fin opcode masked n k key)
    have n: "0 \<le> n" using "1.prems"(2) Frame by (simp add: lengths_ok.simps [of parse s])
    note fe = frame_step_ext [OF "1.prems"(1) Frame n, of parse b]
    show ?thesis
    proof (cases "frame_step parse s")
      case (Stop r)
      obtain e s' where r: "r = (e, s')" by force
      have fs: "frames parse s = (e, s')" using Stop r by (simp add: frames.simps [of parse s])
      have fb: "frames parse ?sb = (e, ext b s')"
        using fe Stop r by (simp add: frames.simps [of parse ?sb] map_step_def)
      show ?thesis
      proof (cases e)
        case (Some x)
        then show ?thesis using fs fb by simp
      next
        case None
        have "closed s'"
        proof -
          have "frame_step parse s =
             (case (if fin then deliver parse opcode (s\<lparr>dataReceived := unmasked (dataReceived s),
                payloadReceived := payloadReceived s @ front_payload (dataReceived s)\<rparr>)
              else Go (s\<lparr>dataReceived := unmasked (dataReceived s),
                payloadReceived := payloadReceived s @ front_payload (dataReceived s)\<rparr>)) of
                Stop r \<Rightarrow> Stop r | Go s3 \<Rightarrow> Go (free (int k + n) s3))"
            using frame_step_Frame [OF Frame n] by simp
          then show ?thesis
            using Stop r None deliver_Stop_closed [of parse opcode _ s']
            by (auto split: if_splits step.splits)
        qed
        then show ?thesis using fs fb None by (simp add: ext_def)
      qed
    next
      case (Go s1)
      have fs: "frames parse s = frames parse s1" using Go by (simp add: frames.simps [of parse s])
      have fb: "frames parse ?sb = frames parse (ext b s1)"
        using fe Go by (simp add: frames.simps [of parse ?sb] map_step_def)
      have l1: "lengths_ok parse s1"
        using "1.prems"(2) Go by (simp add: lengths_ok.simps [of parse s])
      show ?thesis
      proof (cases "closed s1")
        case False
        then show ?thesis
          using "1.IH" [OF Go False l1] fs fb by (simp add: ext_def)
      next
        case True
        have "dataReceived s1 = []"
        proof -
          let ?s2 = "s\<lparr>dataReceived := unmasked (dataReceived s),
                payloadReceived := payloadReceived s @ front_payload (dataReceived s)\<rparr>"
          have eq: "frame_step parse s =
             (case (if fin then deliver parse opcode ?s2 else Go ?s2) of
                Stop r \<Rightarrow> Stop r | Go s3 \<Rightarrow> Go (free (int k + n) s3))"
            using frame_step_Frame [OF Frame n] by simp
          obtain s3 where g: "(if fin then deliver parse opcode ?s2 else Go ?s2) = Go s3"
            and s1: "s1 = free (int k + n) s3"
            using Go unfolding eq by (auto split: step.splits)
          have c3: "closed s3" using True s1 by (simp add: free_def split: if_splits)
          have f: fin using g c3 "1.prems"(1) by (auto split: if_splits)
          have c2: "\<not> closed ?s2" using "1.prems"(1) by simp
          have "deliver parse opcode ?s2 = Go s3" using g f by simp
          then have "dataReceived s3 = []"
            using deliver_data [of parse opcode ?s2 undefined s3, OF _ c2] c3 by simp
          then show ?thesis using s1 by (simp add: free_def slice_from_def)
        qed
        then have "frames parse s1 = (None, s1)"
          by (simp add: frames.simps [of parse s1] frame_step_def frame_header_def)
        then show ?thesis using fs fb True by (simp add: ext_def)
      qed
    qed
  qed
qed

text \<open>
  Two chunks: when the data handler returns from the first chunk without an
  exception, the second call ends as the call with both chunks at once does.
\<close>

lemma chunks_agree:
  assumes "lengths_ok parse (st\<lparr>dataReceived := dataReceived st @ a\<rparr>)"
    and "fst (on_data parse a st) = None"
  shows "on_data parse (a @ b) st = on_data parse b (snd (on_data parse a st))"
proof (cases "closed st")
  case True
  then show ?thesis by (simp add: on_data_def)
next
  case False
  let ?sa = "st\<lparr>dataReceived := dataReceived st @ a\<rparr>"
  obtain s' where r: "frames parse ?sa = (None, s')"
    using assms(2) False by (cases "frames parse ?sa") (simp add: on_data_def)
  have "?sa\<lparr>dataReceived := dataReceived ?sa @ b\<rparr> = st\<lparr>dataReceived := dataReceived st @ a @ b\<rparr>"
    by simp
  then have "frames parse (st\<lparr>dataReceived := dataReceived st @ a @ b\<rparr>) =
      (if closed s' then (None, s') else frames parse (s'\<lparr>dataReceived := dataReceived s' @ b\<rparr>))"
    using frames_ext [of ?sa parse b] False assms(1) r by simp
  then show ?thesis
    using False r by (simp add: on_data_def)
qed

lemma serve_chunks_agree:
  assumes "lengths_ok parse (st\<lparr>dataReceived := dataReceived st @ a\<rparr>)"
    and "fst (on_data parse a st) = None"
  shows "serve parse [Data (a @ b)] st = serve parse [Data a, Data b] st"
  using chunks_agree [OF assms, of b] by (simp add: serve_step_def)





section \<open>Client: session state and operations\<close>

text \<open>
  The callbacks of the browser application, modelled as on the server: the
  session operations a callback performs, and the value it returns (used for the
  reconnect callback only).
\<close>

datatype chandler = CHandler "jsval \<Rightarrow> caction list \<times> jsval"
and caction = CSend jsval jsval | CReceive jsval carg | CDisconnect carg | CReconnect carg
  | CClose carg
and carg = CArgUndefined | CArgNull | CArgFunction chandler | CArgOther

datatype cevent = MessageCallback string jsval | DisconnectCallback | ReconnectCallback
  | CloseCallback

datatype ready_state = CONNECTING | OPEN | CLOSING | CLOSED

text \<open>
  The variables of one session (client source, lines 39-46). Of the current
  \<^verbatim>\<open>websocket\<close> the state \<^verbatim>\<open>readyState\<close> is kept. Observations: the texts
  passed to \<^verbatim>\<open>websocket.send\<close>, the number of running reconnect intervals, and
  the callbacks invoked.
\<close>

record client =
  readyState :: ready_state
  permanentlyClosed :: bool
  temporarilyDisconnected :: bool
  messageHandlers_c :: "string \<rightharpoonup> chandler"
  disconnectHandler :: "chandler option"
  reconnectHandler :: "chandler option"
  closeHandler_c :: "chandler option"
  outgoingQueue :: "jsval list"
  transmitted :: "string list"
  intervals :: nat
  invoked_c :: "cevent list"

definition cscript :: "chandler \<Rightarrow> jsval \<Rightarrow> caction list" where
  "cscript h v = (case h of CHandler f \<Rightarrow> fst (f v))"

definition creturn :: "chandler \<Rightarrow> jsval \<Rightarrow> jsval" where
  "creturn h v = (case h of CHandler f \<Rightarrow> snd (f v))"

text \<open>The text \<^verbatim>\<open>websocket.send\<close> receives for a queued envelope.\<close>

definition wire_text :: "jsval \<Rightarrow> string" where
  "wire_text e = (case JSON_stringify e of None \<Rightarrow> ''undefined'' | Some txt \<Rightarrow> txt)"

text \<open>\<^verbatim>\<open>flushOutgoingQueue\<close> (lines 135-152).\<close>

definition flushOutgoingQueue :: "client \<Rightarrow> client" where
  "flushOutgoingQueue st =
     (if permanentlyClosed st \<or> temporarilyDisconnected st then
        (if length (outgoingQueue st) > 0
         then st\<lparr>outgoingQueue := drop (length (outgoingQueue st)) (outgoingQueue st)\<rparr>
         else st)
      else if readyState st = OPEN then
        (let i = length (outgoingQueue st);
             st1 = st\<lparr>transmitted := transmitted st @ map wire_text (outgoingQueue st)\<rparr>
         in if i > 0 then st1\<lparr>outgoingQueue := drop i (outgoingQueue st1)\<rparr> else st1)
      else st)"

text \<open>\<^verbatim>\<open>send\<close> of the session (lines 184-205).\<close>

definition client_send :: "jsval \<Rightarrow> jsval \<Rightarrow> client \<Rightarrow> client outcome" where
  "client_send ty message st =
     (if \<not> is_string ty then (Some (Thrown ''Invalid parameter: type''), st)
      else if \<not> jsonConvertible message then (Some (Thrown ''Invalid parameter: message''), st)
      else if permanentlyClosed st then
        (Some (Thrown ''Attempted to transmit after the connection has been closed''), st)
      else if \<not> temporarilyDisconnected st then
        (None, flushOutgoingQueue (st\<lparr>outgoingQueue := outgoingQueue st @
           [JObj [(''type'', JStr ''message''), (''messageType'', ty), (''message'', message)]]\<rparr>))
      else (None, st))"

definition is_handler_arg :: "carg \<Rightarrow> bool" where
  "is_handler_arg h = (case h of CArgNull \<Rightarrow> True | CArgFunction f \<Rightarrow> True | _ \<Rightarrow> False)"

definition handler_of :: "carg \<Rightarrow> chandler option" where
  "handler_of h = (case h of CArgFunction f \<Rightarrow> Some f | _ \<Rightarrow> None)"

text \<open>\<^verbatim>\<open>receive\<close> (lines 208-226).\<close>

definition client_receive :: "jsval \<Rightarrow> carg \<Rightarrow> client \<Rightarrow> client outcome" where
  "client_receive ty h st =
     (if \<not> is_string ty then (Some (Thrown ''Invalid parameter: type''), st)
      else if \<not> is_handler_arg h then (Some (Thrown ''Invalid parameter: handler''), st)
      else if permanentlyClosed st then
        (Some (Thrown ''Attempted to set message handler after the connection has been closed''), st)
      else (None, st\<lparr>messageHandlers_c :=
              (case handler_of h of
                 None \<Rightarrow> unregister (string_of ty) (messageHandlers_c st)
               | Some f \<Rightarrow> (messageHandlers_c st)(string_of ty \<mapsto> f))\<rparr>))"

text \<open>\<^verbatim>\<open>disconnect\<close> (lines 229-239).\<close>

definition client_disconnect :: "carg \<Rightarrow> client \<Rightarrow> client outcome" where
  "client_disconnect h st =
     (if \<not> is_handler_arg h then (Some (Thrown ''Invalid parameter: handler''), st)
      else if permanentlyClosed st then
        (Some (Thrown ''Attempted to set disconnect handler after the connection has been closed''), st)
      else (None, st\<lparr>disconnectHandler := handler_of h\<rparr>))"

text \<open>\<^verbatim>\<open>reconnect\<close> (lines 242-252).\<close>

definition client_reconnect :: "carg \<Rightarrow> client \<Rightarrow> client outcome" where
  "client_reconnect h st =
     (if \<not> is_handler_arg h then (Some (Thrown ''Invalid parameter: handler''), st)
      else if permanentlyClosed st then
        (Some (Thrown ''Attempted to set reconnect handler after the connection has been closed''), st)
      else (None, st\<lparr>reconnectHandler := handler_of h\<rparr>))"

text \<open>
  The registration form of \<^verbatim>\<open>close\<close> (lines 255-265, without the branch that
  closes). There is no test of \<^verbatim>\<open>permanentlyClosed\<close> in it.
\<close>

definition client_close_register :: "carg \<Rightarrow> client \<Rightarrow> client outcome" where
  "client_close_register h st =
     (if \<not> is_handler_arg h then (Some (Thrown ''Invalid parameter: handler''), st)
      else (None, st\<lparr>closeHandler_c := handler_of h\<rparr>))"

lemma client_ops_permanentlyClosed:
  "permanentlyClosed (flushOutgoingQueue st) = permanentlyClosed st"
  "permanentlyClosed (snd (client_send ty m st)) = permanentlyClosed st"
  "permanentlyClosed (snd (client_receive ty h st)) = permanentlyClosed st"
  "permanentlyClosed (snd (client_disconnect h st)) = permanentlyClosed st"
  "permanentlyClosed (snd (client_reconnect h st)) = permanentlyClosed st"
  "permanentlyClosed (snd (client_close_register h st)) = permanentlyClosed st"
  by (simp_all add: flushOutgoingQueue_def client_send_def client_receive_def
      client_disconnect_def client_reconnect_def client_close_register_def Let_def)

text \<open>
  The inner \<^verbatim>\<open>close\<close> (lines 155-170) and the execution of a callback, mutually
  recursive as on the server. \<^verbatim>\<open>websocket.close()\<close> moves the socket to the
  state \<open>CLOSING\<close>.
\<close>

function close_c :: "client \<Rightarrow> client outcome"
  and run_c :: "caction list \<Rightarrow> client \<Rightarrow> client outcome"
where
  "close_c st =
     (if \<not> permanentlyClosed st then
        (let st1 = st\<lparr>permanentlyClosed := True\<rparr>;
             st2 = (if readyState st1 \<noteq> CLOSING \<and> readyState st1 \<noteq> CLOSED
                    then st1\<lparr>readyState := CLOSING\<rparr> else st1)
         in case closeHandler_c st2 of
              None \<Rightarrow> (None, st2)
            | Some h \<Rightarrow> run_c (cscript h JUndefined)
                (st2\<lparr>invoked_c := invoked_c st2 @ [CloseCallback]\<rparr>))
      else (None, st))"
| "run_c [] st = (None, st)"
| "run_c (CSend ty message # rest) st =
     (case client_send ty message st of
        (Some e, st') \<Rightarrow> (Some e, st')
      | (None, st') \<Rightarrow> run_c rest st')"
| "run_c (CReceive ty h # rest) st =
     (case client_receive ty h st of
        (Some e, st') \<Rightarrow> (Some e, st')
      | (None, st') \<Rightarrow> run_c rest st')"
| "run_c (CDisconnect h # rest) st =
     (case client_disconnect h st of
        (Some e, st') \<Rightarrow> (Some e, st')
      | (None, st') \<Rightarrow> run_c rest st')"
| "run_c (CReconnect h # rest) st =
     (case client_reconnect h st of
        (Some e, st') \<Rightarrow> (Some e, st')
      | (None, st') \<Rightarrow> run_c rest st')"
| "run_c (CClose CArgUndefined # rest) st =
     (case close_c st of
        (Some e, st') \<Rightarrow> (Some e, st')
      | (None, st') \<Rightarrow> run_c rest st')"
| "run_c (CClose CArgNull # rest) st =
     (case client_close_register CArgNull st of
        (Some e, st') \<Rightarrow> (Some e, st')
      | (None, st') \<Rightarrow> run_c rest st')"
| "run_c (CClose (CArgFunction f) # rest) st =
     (case client_close_register (CArgFunction f) st of
        (Some e, st') \<Rightarrow> (Some e, st')
      | (None, st') \<Rightarrow> run_c rest st')"
| "run_c (CClose CArgOther # rest) st =
     (case client_close_register CArgOther st of
        (Some e, st') \<Rightarrow> (Some e, st')
      | (None, st') \<Rightarrow> run_c rest st')"
  by pat_completeness auto

termination
proof (relation "inv_image (less_than <*lex*> less_than)
    (\<lambda>x. case x of
       Inl st \<Rightarrow> (if permanentlyClosed st then 0 else 1 :: nat, 0 :: nat)
     | Inr (acts, st) \<Rightarrow> (if permanentlyClosed st then 0 else 1, Suc (length acts)))",
    goal_cases)
  case 1
  show ?case by (intro wf_inv_image wf_lex_prod wf_less_than)
next
  case 2
  then show ?case by (auto split: if_splits)
next
  case (3 ty message rest st x y)
  then have "permanentlyClosed y = permanentlyClosed st"
    using client_ops_permanentlyClosed(2) [of ty message st] by (metis snd_conv)
  then show ?case by simp
next
  case (4 ty h rest st x y)
  then have "permanentlyClosed y = permanentlyClosed st"
    using client_ops_permanentlyClosed(3) [of ty h st] by (metis snd_conv)
  then show ?case by simp
next
  case (5 h rest st x y)
  then have "permanentlyClosed y = permanentlyClosed st"
    using client_ops_permanentlyClosed(4) [of h st] by (metis snd_conv)
  then show ?case by simp
next
  case (6 h rest st x y)
  then have "permanentlyClosed y = permanentlyClosed st"
    using client_ops_permanentlyClosed(5) [of h st] by (metis snd_conv)
  then show ?case by simp
next
  case 7
  then show ?case by simp
next
  case (8 rest st x y)
  then have "permanentlyClosed st \<Longrightarrow> permanentlyClosed y"
    by (simp add: close_c.psimps)
  then show ?case by auto
next
  case (9 rest st x y)
  then have "permanentlyClosed y = permanentlyClosed st"
    using client_ops_permanentlyClosed(6) [of CArgNull st] by (metis snd_conv)
  then show ?case by simp
next
  case (10 f rest st x y)
  then have "permanentlyClosed y = permanentlyClosed st"
    using client_ops_permanentlyClosed(6) [of "CArgFunction f" st] by (metis snd_conv)
  then show ?case by simp
next
  case (11 rest st x y)
  then have "permanentlyClosed y = permanentlyClosed st"
    using client_ops_permanentlyClosed(6) [of CArgOther st] by (metis snd_conv)
  then show ?case by simp
qed

declare close_c.simps [simp del]

text \<open>\<^verbatim>\<open>close\<close> of the session (lines 255-265).\<close>

definition client_close :: "carg \<Rightarrow> client \<Rightarrow> client outcome" where
  "client_close h st =
     (case h of
        CArgOther \<Rightarrow> (Some (Thrown ''Invalid parameter: handler''), st)
      | CArgUndefined \<Rightarrow> close_c st
      | _ \<Rightarrow> client_close_register h st)"

text \<open>
  \<^verbatim>\<open>onSocketOpen\<close> (lines 60-91). The reconnect callback is called after the
  queue has been emptied; \<^verbatim>\<open>undefined\<close> as its result counts as \<^verbatim>\<open>null\<close>.
\<close>

definition onSocketOpen :: "client \<Rightarrow> client outcome" where
  "onSocketOpen st =
     (if temporarilyDisconnected st then
        (let st1 = st\<lparr>temporarilyDisconnected := False\<rparr>;
             st2 = (if length (outgoingQueue st1) > 0
                    then st1\<lparr>outgoingQueue := drop (length (outgoingQueue st1)) (outgoingQueue st1)\<rparr>
                    else st1)
         in case reconnectHandler st2 of
              None \<Rightarrow>
                (None, flushOutgoingQueue (st2\<lparr>outgoingQueue := outgoingQueue st2 @
                   [JObj [(''type'', JStr ''reconnect''), (''reconnectData'', JNull)]]\<rparr>))
            | Some h \<Rightarrow>
                (case run_c (cscript h JUndefined)
                        (st2\<lparr>invoked_c := invoked_c st2 @ [ReconnectCallback]\<rparr>) of
                   (Some e, st3) \<Rightarrow> (Some e, st3)
                 | (None, st3) \<Rightarrow>
                     (let reconnectData =
                            (if creturn h JUndefined = JUndefined then JNull
                             else creturn h JUndefined)
                      in if \<not> jsonConvertible reconnectData
                         then (Some (Thrown ''Invalid reconnectData''), st3)
                         else (None, flushOutgoingQueue (st3\<lparr>outgoingQueue :=
                            outgoingQueue st3 @
                            [JObj [(''type'', JStr ''reconnect''),
                                   (''reconnectData'', reconnectData)]]\<rparr>)))))
      else (None, flushOutgoingQueue st))"

text \<open>
  \<^verbatim>\<open>onSocketMessage\<close> (lines 94-105). \<open>parse\<close> stands for \<^verbatim>\<open>JSON.parse\<close>, with
  \<open>None\<close> when it throws.
\<close>

definition onSocketMessage :: "(string \<Rightarrow> jsval option) \<Rightarrow> string \<Rightarrow> client \<Rightarrow> client outcome" where
  "onSocketMessage parse text st =
     (case parse text of
        None \<Rightarrow> (Some SyntaxError, st)
      | Some data \<Rightarrow>
          (if data = JNull \<or> data = JUndefined then (Some TypeError, st)
           else if property data ''type'' = JStr ''message'' then
             (case property_key (property data ''messageType'') of
                None \<Rightarrow> (Some TypeError, st)
              | Some k \<Rightarrow>
                  (case resolve (messageHandlers_c st) k (property data ''message'') of
                     Absent \<Rightarrow> (None, st)
                   | Registered name h v \<Rightarrow>
                       run_c (cscript h v)
                         (st\<lparr>invoked_c := invoked_c st @ [MessageCallback name v]\<rparr>)
                   | Inert \<Rightarrow> (None, st)
                   | Faulty \<Rightarrow> (Some TypeError, st)))
           else if property data ''type'' = JStr ''close'' then close_c st
           else (None, st)))"

text \<open>
  \<^verbatim>\<open>onSocketClose\<close> (lines 108-132): the disconnect callback, then a new reconnect
  interval. An exception of the callback leaves the function before the
  interval is set.
\<close>

definition onSocketClose :: "client \<Rightarrow> client outcome" where
  "onSocketClose st =
     (if \<not> permanentlyClosed st then
        (case (if \<not> temporarilyDisconnected st then
                 (let st1 = st\<lparr>temporarilyDisconnected := True\<rparr>
                  in case disconnectHandler st1 of
                       None \<Rightarrow> (None, st1)
                     | Some h \<Rightarrow> run_c (cscript h JUndefined)
                         (st1\<lparr>invoked_c := invoked_c st1 @ [DisconnectCallback]\<rparr>))
               else (None, st)) of
           (Some e, st') \<Rightarrow> (Some e, st')
         | (None, st') \<Rightarrow> (None, st'\<lparr>intervals := intervals st' + 1\<rparr>))
      else (None, st))"

text \<open>
  One firing of a reconnect interval (lines 121-130). \<open>ok\<close> says whether
  \<^verbatim>\<open>new WebSocket(url)\<close> returns; a new socket starts in the state \<open>CONNECTING\<close>.
\<close>

definition reconnectingInterval :: "bool \<Rightarrow> client \<Rightarrow> client" where
  "reconnectingInterval ok st =
     (if intervals st = 0 then st
      else if \<not> permanentlyClosed st then
        (if ok then st\<lparr>readyState := CONNECTING, intervals := intervals st - 1\<rparr> else st)
      else st\<lparr>intervals := intervals st - 1\<rparr>)"

text \<open>
  \<^verbatim>\<open>connect\<close> (lines 24-46 and 172-180), for arguments that pass its checks in a
  browser that has WebSockets: a socket is created, the connect envelope queued
  and the queue flushed.
\<close>

definition connect :: client where
  "connect = flushOutgoingQueue
     \<lparr>readyState = CONNECTING, permanentlyClosed = False, temporarilyDisconnected = False,
      messageHandlers_c = Map.empty, disconnectHandler = None, reconnectHandler = None,
      closeHandler_c = None, outgoingQueue = [JObj [(''type'', JStr ''connect'')]],
      transmitted = [], intervals = 0, invoked_c = []\<rparr>"

text \<open>
  What happens to a session from outside. The browser sets the state of the
  socket before it fires the open and the close event.
\<close>

datatype cinput = SocketOpen | SocketMessage string | SocketClosed | Interval bool
  | AppCalls "caction list"

definition client_step :: "(string \<Rightarrow> jsval option) \<Rightarrow> cinput \<Rightarrow> client \<Rightarrow> client outcome" where
  "client_step parse i st = (case i of
       SocketOpen \<Rightarrow> onSocketOpen (st\<lparr>readyState := OPEN\<rparr>)
     | SocketMessage text \<Rightarrow> onSocketMessage parse text st
     | SocketClosed \<Rightarrow> onSocketClose (st\<lparr>readyState := CLOSED\<rparr>)
     | Interval ok \<Rightarrow> (None, reconnectingInterval ok st)
     | AppCalls acts \<Rightarrow> run_c acts st)"

fun client_run :: "(string \<Rightarrow> jsval option) \<Rightarrow> cinput list \<Rightarrow> client \<Rightarrow> client" where
  "client_run parse [] st = st"
| "client_run parse (i # rest) st = client_run parse rest (snd (client_step parse i st))"

text \<open>The counterpart of \<open>close_run_rel\<close> for the client.\<close>

lemma close_run_c_rel:
  assumes rfl: "\<And>s. R s s"
    and trn: "\<And>a b c. R a b \<Longrightarrow> R b c \<Longrightarrow> R a c"
    and send: "\<And>ty m s. R s (snd (client_send ty m s))"
    and recv: "\<And>ty h s. R s (snd (client_receive ty h s))"
    and disc: "\<And>h s. R s (snd (client_disconnect h s))"
    and reco: "\<And>h s. R s (snd (client_reconnect h s))"
    and reg: "\<And>h s. R s (snd (client_close_register h s))"
    and mark: "\<And>s r. \<not> permanentlyClosed s \<Longrightarrow>
      R s (s\<lparr>permanentlyClosed := True, readyState := r\<rparr>)"
    and call: "\<And>s r. \<not> permanentlyClosed s \<Longrightarrow>
      R s (s\<lparr>permanentlyClosed := True, readyState := r,
             invoked_c := invoked_c s @ [CloseCallback]\<rparr>)"
  shows "R st (snd (close_c st))" and "R st (snd (run_c acts st))"
proof (induct st and acts st rule: close_c_run_c.induct)
  case (1 st)
  show ?case
  proof (cases "permanentlyClosed st")
    case True
    then show ?thesis by (simp add: close_c.simps rfl)
  next
    case False
    define r where "r = (if readyState st \<noteq> CLOSING \<and> readyState st \<noteq> CLOSED
       then CLOSING else readyState st)"
    define st2 where "st2 = st\<lparr>permanentlyClosed := True, readyState := r\<rparr>"
    have e: "(if readyState (st\<lparr>permanentlyClosed := True\<rparr>) \<noteq> CLOSING
                 \<and> readyState (st\<lparr>permanentlyClosed := True\<rparr>) \<noteq> CLOSED
              then st\<lparr>permanentlyClosed := True\<rparr>\<lparr>readyState := CLOSING\<rparr>
              else st\<lparr>permanentlyClosed := True\<rparr>) = st2"
      by (simp add: st2_def r_def)
    have c: "close_c st = (case closeHandler_c st2 of
         None \<Rightarrow> (None, st2)
       | Some h \<Rightarrow> run_c (cscript h JUndefined)
           (st2\<lparr>invoked_c := invoked_c st2 @ [CloseCallback]\<rparr>))"
      using False unfolding close_c.simps [of st] Let_def e by simp
    show ?thesis
    proof (cases "closeHandler_c st2")
      case None
      then show ?thesis
        using mark [OF False, of r] by (simp add: c st2_def)
    next
      case (Some h)
      have "R st (st2\<lparr>invoked_c := invoked_c st2 @ [CloseCallback]\<rparr>)"
        using call [OF False, of r] by (simp add: st2_def)
      moreover have "R (st2\<lparr>invoked_c := invoked_c st2 @ [CloseCallback]\<rparr>)
          (snd (run_c (cscript h JUndefined) (st2\<lparr>invoked_c := invoked_c st2 @ [CloseCallback]\<rparr>)))"
        using 1 [OF False HOL.refl e [symmetric] Some] .
      ultimately show ?thesis
        using Some trn by (simp add: c)
    qed
  qed
next
  case (2 st)
  then show ?case by (simp add: rfl)
next
  case (3 ty message rest st)
  then show ?case
    using send [of st ty message] trn
    by (cases "client_send ty message st") (auto split: option.splits)
next
  case (4 ty h rest st)
  then show ?case
    using recv [of st ty h] trn
    by (cases "client_receive ty h st") (auto split: option.splits)
next
  case (5 h rest st)
  then show ?case
    using disc [of st h] trn
    by (cases "client_disconnect h st") (auto split: option.splits)
next
  case (6 h rest st)
  then show ?case
    using reco [of st h] trn
    by (cases "client_reconnect h st") (auto split: option.splits)
next
  case (7 rest st)
  then show ?case
    using trn
    by (cases "close_c st") (auto split: option.splits)
next
  case (8 rest st)
  then show ?case
    using reg [of st CArgNull] trn
    by (cases "client_close_register CArgNull st") (auto split: option.splits)
next
  case (9 f rest st)
  then show ?case
    using reg [of st "CArgFunction f"] trn
    by (cases "client_close_register (CArgFunction f) st") (auto split: option.splits)
next
  case (10 rest st)
  then show ?case
    using reg [of st CArgOther] trn
    by (cases "client_close_register CArgOther st") (auto split: option.splits)
qed



section \<open>Client: what the operations change\<close>

lemma close_c_closed: "permanentlyClosed st \<Longrightarrow> close_c st = (None, st)"
  by (simp add: close_c.simps)

definition is_close_callback :: "cevent \<Rightarrow> bool" where
  "is_close_callback e = (case e of CloseCallback \<Rightarrow> True | _ \<Rightarrow> False)"

definition close_callbacks :: "client \<Rightarrow> cevent list" where
  "close_callbacks st = filter is_close_callback (invoked_c st)"

lemma client_send_closed_state:
  "permanentlyClosed st \<Longrightarrow> snd (client_send ty m st) = st \<and> fst (client_send ty m st) \<noteq> None"
  by (simp add: client_send_def)

lemma flush_fields [simp]:
  "permanentlyClosed (flushOutgoingQueue st) = permanentlyClosed st"
  "temporarilyDisconnected (flushOutgoingQueue st) = temporarilyDisconnected st"
  "readyState (flushOutgoingQueue st) = readyState st"
  "invoked_c (flushOutgoingQueue st) = invoked_c st"
  "closeHandler_c (flushOutgoingQueue st) = closeHandler_c st"
  "reconnectHandler (flushOutgoingQueue st) = reconnectHandler st"
  "disconnectHandler (flushOutgoingQueue st) = disconnectHandler st"
  "messageHandlers_c (flushOutgoingQueue st) = messageHandlers_c st"
  "intervals (flushOutgoingQueue st) = intervals st"
  by (simp_all add: flushOutgoingQueue_def Let_def)

lemma flush_queue:
  "permanentlyClosed st \<or> temporarilyDisconnected st \<or> readyState st = OPEN \<Longrightarrow>
     outgoingQueue (flushOutgoingQueue st) = []"
  by (auto simp: flushOutgoingQueue_def Let_def)

lemma client_ops_fields [simp]:
  "invoked_c (snd (client_send ty m st)) = invoked_c st"
  "invoked_c (snd (client_receive ty h st)) = invoked_c st"
  "invoked_c (snd (client_disconnect h st)) = invoked_c st"
  "invoked_c (snd (client_reconnect h st)) = invoked_c st"
  "invoked_c (snd (client_close_register h st)) = invoked_c st"
  "permanentlyClosed (snd (client_send ty m st)) = permanentlyClosed st"
  "permanentlyClosed (snd (client_receive ty h st)) = permanentlyClosed st"
  "permanentlyClosed (snd (client_disconnect h st)) = permanentlyClosed st"
  "permanentlyClosed (snd (client_reconnect h st)) = permanentlyClosed st"
  "permanentlyClosed (snd (client_close_register h st)) = permanentlyClosed st"
  by (simp_all add: client_send_def client_receive_def
      client_disconnect_def client_reconnect_def client_close_register_def)

text \<open>On a permanently closed session a callback transmits nothing and calls no callback.\<close>

lemma closed_quiet_c:
  assumes "permanentlyClosed st"
  shows "permanentlyClosed (snd (run_c acts st)) \<and> transmitted (snd (run_c acts st)) = transmitted st
           \<and> invoked_c (snd (run_c acts st)) = invoked_c st"
proof -
  let ?R = "\<lambda>a b. permanentlyClosed a \<longrightarrow> permanentlyClosed b \<and> transmitted b = transmitted a
     \<and> invoked_c b = invoked_c a"
  have "?R st (snd (run_c acts st))"
    by (rule close_run_c_rel(2) [where R = ?R];
        (simp add: client_send_closed_state; fail
         | simp add: client_receive_def client_disconnect_def client_reconnect_def
             client_close_register_def))
  with assms show ?thesis by simp
qed

lemma close_c_open:
  assumes "\<not> permanentlyClosed st"
  shows "permanentlyClosed (snd (close_c st))"
    and "close_callbacks (snd (close_c st)) =
           close_callbacks st @ (if closeHandler_c st = None then [] else [CloseCallback])"
proof -
  define r where "r = (if readyState st \<noteq> CLOSING \<and> readyState st \<noteq> CLOSED
       then CLOSING else readyState st)"
  define st2 where "st2 = st\<lparr>permanentlyClosed := True, readyState := r\<rparr>"
  define st3 where "st3 = st2\<lparr>invoked_c := invoked_c st2 @ [CloseCallback]\<rparr>"
  have e: "(if readyState (st\<lparr>permanentlyClosed := True\<rparr>) \<noteq> CLOSING
               \<and> readyState (st\<lparr>permanentlyClosed := True\<rparr>) \<noteq> CLOSED
            then st\<lparr>permanentlyClosed := True\<rparr>\<lparr>readyState := CLOSING\<rparr>
            else st\<lparr>permanentlyClosed := True\<rparr>) = st2"
    by (simp add: st2_def r_def)
  have c: "close_c st = (case closeHandler_c st2 of
       None \<Rightarrow> (None, st2)
     | Some h \<Rightarrow> run_c (cscript h JUndefined) st3)"
    using assms unfolding close_c.simps [of st] Let_def e st3_def by simp
  have f: "permanentlyClosed st2" "invoked_c st2 = invoked_c st" "permanentlyClosed st3"
    "invoked_c st3 = invoked_c st @ [CloseCallback]" "closeHandler_c st2 = closeHandler_c st"
    by (simp_all add: st2_def st3_def)
  have main: "permanentlyClosed (snd (close_c st)) \<and> close_callbacks (snd (close_c st)) =
           close_callbacks st @ (if closeHandler_c st = None then [] else [CloseCallback])"
  proof (cases "closeHandler_c st2")
    case None
    then show ?thesis using f by (simp add: c close_callbacks_def)
  next
    case (Some h)
    then show ?thesis
      using f closed_quiet_c [OF f(3), of "cscript h JUndefined"]
      by (simp add: c close_callbacks_def is_close_callback_def)
  qed
  from main show "permanentlyClosed (snd (close_c st))"
    and "close_callbacks (snd (close_c st)) =
           close_callbacks st @ (if closeHandler_c st = None then [] else [CloseCallback])"
    by simp_all
qed

text \<open>
  A relation that holds across the elementary steps of the client holds across
  every input: \<open>quiet\<close> covers the steps that touch neither the closed flag, nor
  the close handler, nor the record of callbacks.
\<close>

lemma client_step_rel:
  assumes rfl: "\<And>s. R s s"
    and trn: "\<And>a b c. R a b \<Longrightarrow> R b c \<Longrightarrow> R a c"
    and send: "\<And>ty m s. R s (snd (client_send ty m s))"
    and recv: "\<And>ty h s. R s (snd (client_receive ty h s))"
    and disc: "\<And>h s. R s (snd (client_disconnect h s))"
    and reco: "\<And>h s. R s (snd (client_reconnect h s))"
    and reg: "\<And>h s. R s (snd (client_close_register h s))"
    and mark: "\<And>s r. \<not> permanentlyClosed s \<Longrightarrow>
      R s (s\<lparr>permanentlyClosed := True, readyState := r\<rparr>)"
    and call: "\<And>s r. \<not> permanentlyClosed s \<Longrightarrow>
      R s (s\<lparr>permanentlyClosed := True, readyState := r,
             invoked_c := invoked_c s @ [CloseCallback]\<rparr>)"
    and quiet: "\<And>s s'. permanentlyClosed s' = permanentlyClosed s \<Longrightarrow>
      invoked_c s' = invoked_c s \<Longrightarrow> closeHandler_c s' = closeHandler_c s \<Longrightarrow> R s s'"
    and other: "\<And>s e. \<not> is_close_callback e \<Longrightarrow> R s (s\<lparr>invoked_c := invoked_c s @ [e]\<rparr>)"
  shows "R st (snd (client_step parse i st))"
proof -
  have cl: "R s (snd (close_c s))" and rn: "R s (snd (run_c acts s))" for s acts
    by (rule close_run_c_rel [of R, OF rfl trn send recv disc reco reg mark call]; assumption)+
  have rs: "R s (s\<lparr>readyState := r\<rparr>)" for s r
    by (rule quiet) simp_all
  have td: "R s (s\<lparr>temporarilyDisconnected := t\<rparr>)" for s t
    by (rule quiet) simp_all
  have oq: "R s (s\<lparr>outgoingQueue := q\<rparr>)" for s q
    by (rule quiet) simp_all
  have iv: "R s (s\<lparr>intervals := n\<rparr>)" for s n
    by (rule quiet) simp_all
  have fl: "R s (flushOutgoingQueue s)" for s
    by (rule quiet) simp_all
  have pf: "R s (flushOutgoingQueue (s\<lparr>outgoingQueue := q\<rparr>))" for s q
    using trn [OF oq fl] .
  have so: "R s (snd (onSocketOpen s))" for s
  proof (cases "temporarilyDisconnected s")
    case False
    then show ?thesis using fl by (simp add: onSocketOpen_def)
  next
    case True
    define s2 where "s2 = s\<lparr>temporarilyDisconnected := False, outgoingQueue := []\<rparr>"
    have e: "(if length (outgoingQueue (s\<lparr>temporarilyDisconnected := False\<rparr>)) > 0
         then s\<lparr>temporarilyDisconnected := False\<rparr>\<lparr>outgoingQueue :=
                drop (length (outgoingQueue (s\<lparr>temporarilyDisconnected := False\<rparr>)))
                  (outgoingQueue (s\<lparr>temporarilyDisconnected := False\<rparr>))\<rparr>
         else s\<lparr>temporarilyDisconnected := False\<rparr>) = s2"
      by (simp add: s2_def)
    have r2: "R s s2"
      by (rule quiet) (simp_all add: s2_def)
    show ?thesis
    proof (cases "reconnectHandler s2")
      case None
      then show ?thesis
        using True trn [OF r2 pf] unfolding onSocketOpen_def Let_def e by simp
    next
      case (Some h)
      obtain x s3 where r: "run_c (cscript h JUndefined)
          (s2\<lparr>invoked_c := invoked_c s2 @ [ReconnectCallback]\<rparr>) = (x, s3)" by force
      have "R s2 (s2\<lparr>invoked_c := invoked_c s2 @ [ReconnectCallback]\<rparr>)"
        by (rule other) (simp add: is_close_callback_def)
      from trn [OF r2 trn [OF this rn]] r have r3: "R s s3"
        by (metis snd_conv)
      show ?thesis
        using True Some r r3 trn [OF r3 pf] unfolding onSocketOpen_def Let_def e
        by (cases x) simp_all
    qed
  qed
  have sm: "R s (snd (onSocketMessage parse w s))" for s w
    using rfl [of s] cl [of s] trn [OF other rn]
    by (auto simp: onSocketMessage_def is_close_callback_def split: option.splits lookup.splits)
  have sc: "R s (snd (onSocketClose s))" for s
  proof (cases "permanentlyClosed s")
    case True
    then show ?thesis using rfl by (simp add: onSocketClose_def)
  next
    case False
    obtain x s' where d: "(if \<not> temporarilyDisconnected s then
                 (let st1 = s\<lparr>temporarilyDisconnected := True\<rparr>
                  in case disconnectHandler st1 of
                       None \<Rightarrow> (None, st1)
                     | Some h \<Rightarrow> run_c (cscript h JUndefined)
                         (st1\<lparr>invoked_c := invoked_c st1 @ [DisconnectCallback]\<rparr>))
               else (None, s)) = (x, s')" by force
    have "R s s'"
    proof (cases "temporarilyDisconnected s")
      case True
      then show ?thesis using d rfl by simp
    next
      case False
      show ?thesis
      proof (cases "disconnectHandler s")
        case None
        then show ?thesis using d False td by (auto simp: Let_def)
      next
        case (Some h)
        have "R (s\<lparr>temporarilyDisconnected := True\<rparr>)
          (s\<lparr>temporarilyDisconnected := True\<rparr>\<lparr>invoked_c :=
             invoked_c (s\<lparr>temporarilyDisconnected := True\<rparr>) @ [DisconnectCallback]\<rparr>)"
          by (rule other) (simp add: is_close_callback_def)
        from trn [OF td trn [OF this rn]] Some d False show ?thesis
          by (simp add: Let_def) (metis snd_conv)
      qed
    qed
    then show ?thesis
      using False d trn [OF _ iv] unfolding onSocketClose_def by (cases x) simp_all
  qed
  have ti: "R s (reconnectingInterval ok s)" for s ok
    by (rule quiet) (simp_all add: reconnectingInterval_def)
  show ?thesis
    using trn [OF rs so] sm trn [OF rs sc] ti rn
    by (cases i) (simp_all add: client_step_def)
qed

section \<open>Closing twice\<close>

text \<open>Once a session is closed no input calls the close callback again.\<close>

lemma serve_step_closed:
  assumes "closed st"
  shows "closed (snd (serve_step parse i st)) \<and> close_events (snd (serve_step parse i st)) = close_events st"
  using assms closed_quiet(2) [OF assms]
  by (cases i) (simp_all add: serve_step_def on_data_def on_close_def close_closed close_events_def)

lemma serve_closed:
  "closed st \<Longrightarrow> closed (serve parse ins st) \<and> close_events (serve parse ins st) = close_events st"
  by (induction ins arbitrary: st) (simp_all add: serve_step_closed)

lemma serve_step_close_inv:
  assumes "close_inv st"
  shows "close_inv (snd (serve_step parse i st))"
proof -
  let ?R = "\<lambda>a b. close_inv a \<longrightarrow> close_inv b"
  have 3: "?R st (snd (on_data parse d st))" for d
    by (rule on_data_rel(2) [where R = ?R];
        (blast | simp add: close_inv_def close_events_def is_close_event_def))
  show ?thesis
    using assms close_run_close_inv [OF assms] 3
    by (cases i) (simp_all add: serve_step_def on_close_def)
qed

lemma serve_close_inv: "close_inv st \<Longrightarrow> close_inv (serve parse ins st)"
  by (induction ins arbitrary: st) (simp_all add: serve_step_close_inv)

lemma close_inv_le: "close_inv st \<Longrightarrow> length (close_events st) \<le> 1"
  by (simp add: close_inv_def split: if_splits)

lemma close_always_closed: "closed (snd (close b st))"
  using close_open(1) [of st b] by (cases "closed st") (simp_all add: close_closed)

text \<open>The close callback has been called at most once, and never on an open session.\<close>

definition close_inv_c :: "client \<Rightarrow> bool" where
  "close_inv_c st = (if permanentlyClosed st then length (close_callbacks st) \<le> 1
     else close_callbacks st = [])"

lemma client_step_close_inv:
  "close_inv_c st \<Longrightarrow> close_inv_c (snd (client_step parse i st))"
proof -
  let ?R = "\<lambda>a b. close_inv_c a \<longrightarrow> close_inv_c b"
  have "?R st (snd (client_step parse i st))"
    by (rule client_step_rel [where R = ?R];
        (blast | simp add: close_inv_c_def close_callbacks_def is_close_callback_def))
  then show "close_inv_c st \<Longrightarrow> close_inv_c (snd (client_step parse i st))" by simp
qed

lemma client_run_close_inv: "close_inv_c st \<Longrightarrow> close_inv_c (client_run parse ins st)"
  by (induction ins arbitrary: st) (simp_all add: client_step_close_inv)

lemma client_step_closed:
  "permanentlyClosed st \<Longrightarrow> permanentlyClosed (snd (client_step parse i st))
     \<and> close_callbacks (snd (client_step parse i st)) = close_callbacks st"
proof -
  let ?R = "\<lambda>a b. permanentlyClosed a \<longrightarrow> permanentlyClosed b
     \<and> close_callbacks b = close_callbacks a"
  have "?R st (snd (client_step parse i st))"
    by (rule client_step_rel [where R = ?R];
        (simp add: close_callbacks_def is_close_callback_def; fail | blast))
  then show "permanentlyClosed st \<Longrightarrow> permanentlyClosed (snd (client_step parse i st))
     \<and> close_callbacks (snd (client_step parse i st)) = close_callbacks st" by simp
qed

lemma client_run_closed:
  "permanentlyClosed st \<Longrightarrow> permanentlyClosed (client_run parse ins st)
     \<and> close_callbacks (client_run parse ins st) = close_callbacks st"
  by (induction ins arbitrary: st) (simp_all add: client_step_closed)

lemma close_c_always_closed: "permanentlyClosed (snd (close_c st))"
  using close_c_open(1) [of st] by (cases "permanentlyClosed st") (simp_all add: close_c_closed)

lemma close_inv_c_connect: "close_inv_c connect"
  by (simp add: close_inv_c_def connect_def close_callbacks_def)

lemma close_inv_new: "close_inv (new_conn h)"
  by (simp add: close_inv_def new_conn_def close_events_def)

text \<open>
  C8. Server, for \<open>close(true)\<close> and \<open>close(false)\<close>: after a call the connection is
  closed, and a further call changes nothing; a first call on an open connection
  with a registered close handler calls the handler once; from a closed
  connection on, no input (data, socket close, session operations) calls it
  again; in every run of a connection it is called at most once; \<open>send\<close> on a
  closed connection throws and changes nothing. Client, for \<open>close()\<close>: the same
  six statements for the session, its close callback and its \<open>send\<close>.
\<close>

theorem C8_close_idempotent:
  "closed (snd (close b st))
   \<and> close b' (snd (close b st)) = (None, snd (close b st))
   \<and> (\<not> closed st \<and> closeHandler st \<noteq> None \<longrightarrow>
        close_events (snd (close b st)) = close_events st @ [CloseHandler])
   \<and> (closed st \<longrightarrow> close_events (serve parse ins st) = close_events st)
   \<and> length (close_events (serve parse ins (new_conn h))) \<le> 1
   \<and> (closed st \<longrightarrow> fst (session_send ty m st) \<noteq> None \<and> snd (session_send ty m st) = st)
   \<and> permanentlyClosed (snd (close_c ct))
   \<and> close_c (snd (close_c ct)) = (None, snd (close_c ct))
   \<and> (\<not> permanentlyClosed ct \<and> closeHandler_c ct \<noteq> None \<longrightarrow>
        close_callbacks (snd (close_c ct)) = close_callbacks ct @ [CloseCallback])
   \<and> (permanentlyClosed ct \<longrightarrow> close_callbacks (client_run cparse cins ct) = close_callbacks ct)
   \<and> length (close_callbacks (client_run cparse cins connect)) \<le> 1
   \<and> (permanentlyClosed ct \<longrightarrow> fst (client_send ty m ct) \<noteq> None \<and> snd (client_send ty m ct) = ct)"
proof -
  have s1: "closed (snd (close b st))" by (rule close_always_closed)
  have s2: "close b' (snd (close b st)) = (None, snd (close b st))"
    using s1 by (rule close_closed)
  have s3: "\<not> closed st \<and> closeHandler st \<noteq> None \<longrightarrow>
        close_events (snd (close b st)) = close_events st @ [CloseHandler]"
    using close_open(3) [of st b] by simp
  have s4: "closed st \<longrightarrow> close_events (serve parse ins st) = close_events st"
    using serve_closed by blast
  have s5: "length (close_events (serve parse ins (new_conn h))) \<le> 1"
    by (rule close_inv_le [OF serve_close_inv [OF close_inv_new]])
  have s6: "closed st \<longrightarrow> fst (session_send ty m st) \<noteq> None \<and> snd (session_send ty m st) = st"
    using session_send_closed_state by blast
  have c1: "permanentlyClosed (snd (close_c ct))" by (rule close_c_always_closed)
  have c2: "close_c (snd (close_c ct)) = (None, snd (close_c ct))"
    using c1 by (rule close_c_closed)
  have c3: "\<not> permanentlyClosed ct \<and> closeHandler_c ct \<noteq> None \<longrightarrow>
        close_callbacks (snd (close_c ct)) = close_callbacks ct @ [CloseCallback]"
    using close_c_open(2) [of ct] by simp
  have c4: "permanentlyClosed ct \<longrightarrow> close_callbacks (client_run cparse cins ct) = close_callbacks ct"
    using client_run_closed by blast
  have c5: "length (close_callbacks (client_run cparse cins connect)) \<le> 1"
    using client_run_close_inv [OF close_inv_c_connect, of cparse cins]
    by (simp add: close_inv_c_def split: if_splits)
  have c6: "permanentlyClosed ct \<longrightarrow> fst (client_send ty m ct) \<noteq> None \<and> snd (client_send ty m ct) = ct"
    using client_send_closed_state by blast
  show ?thesis
    using s1 s2 s3 s4 s5 s6 c1 c2 c3 c4 c5 c6 by blast
qed

text \<open>
  C8, instances: on both sides the close handler itself calls \<open>close()\<close>; the
  session is closed once, closed again from outside, and then used for sending.
\<close>

theorem C8_close_idempotent_witness:
  "closed (snd (close True ((new_conn (Handler (\<lambda>v. [])))
      \<lparr>closeHandler := Some (Handler (\<lambda>v. [Close ArgUndefined]))\<rparr>)))
   \<and> close_events (snd (close True ((new_conn (Handler (\<lambda>v. [])))
      \<lparr>closeHandler := Some (Handler (\<lambda>v. [Close ArgUndefined]))\<rparr>))) = [CloseHandler]
   \<and> close_events (serve (\<lambda>b. None) [SocketClose, Calls [Close ArgUndefined]]
        (snd (close True ((new_conn (Handler (\<lambda>v. [])))
          \<lparr>closeHandler := Some (Handler (\<lambda>v. [Close ArgUndefined]))\<rparr>)))) = [CloseHandler]
   \<and> fst (session_send (JStr ''greeting'') JNull
        (snd (close True ((new_conn (Handler (\<lambda>v. [])))
          \<lparr>closeHandler := Some (Handler (\<lambda>v. [Close ArgUndefined]))\<rparr>)))) \<noteq> None
   \<and> permanentlyClosed (snd (close_c (connect
        \<lparr>closeHandler_c := Some (CHandler (\<lambda>v. ([CClose CArgUndefined], JUndefined)))\<rparr>)))
   \<and> close_callbacks (snd (close_c (connect
        \<lparr>closeHandler_c := Some (CHandler (\<lambda>v. ([CClose CArgUndefined], JUndefined)))\<rparr>)))
        = [CloseCallback]
   \<and> close_callbacks (client_run (\<lambda>b. None) [AppCalls [CClose CArgUndefined], SocketClosed]
        (snd (close_c (connect
          \<lparr>closeHandler_c := Some (CHandler (\<lambda>v. ([CClose CArgUndefined], JUndefined)))\<rparr>))))
        = [CloseCallback]
   \<and> fst (client_send (JStr ''greeting'') JNull (snd (close_c (connect
        \<lparr>closeHandler_c := Some (CHandler (\<lambda>v. ([CClose CArgUndefined], JUndefined)))\<rparr>))))
        \<noteq> None"
proof -
  let ?s = "(new_conn (Handler (\<lambda>v. [])))\<lparr>closeHandler := Some (Handler (\<lambda>v. [Close ArgUndefined]))\<rparr>"
  let ?c = "connect\<lparr>closeHandler_c := Some (CHandler (\<lambda>v. ([CClose CArgUndefined], JUndefined)))\<rparr>"
  have s: "\<not> closed ?s" "closeHandler ?s \<noteq> None" "close_events ?s = []"
    by (simp_all add: new_conn_def close_events_def)
  have c: "\<not> permanentlyClosed ?c" "closeHandler_c ?c \<noteq> None" "close_callbacks ?c = []"
    by (simp_all add: connect_def close_callbacks_def)
  note a = C8_close_idempotent [of True ?s False "\<lambda>b. None" "[]" "Handler (\<lambda>v. [])"
      "JStr ''greeting''" JNull ?c "\<lambda>b. None" "[]"]
  note b = C8_close_idempotent [of True "snd (close True ?s)" False "\<lambda>b. None"
      "[SocketClose, Calls [Close ArgUndefined]]" "Handler (\<lambda>v. [])"
      "JStr ''greeting''" JNull "snd (close_c ?c)" "\<lambda>b. None"
      "[AppCalls [CClose CArgUndefined], SocketClosed]"]
  have 1: "closed (snd (close True ?s))" using a by blast
  have 2: "close_events (snd (close True ?s)) = close_events ?s @ [CloseHandler]"
    using a s by blast
  have 3: "close_events (serve (\<lambda>b. None) [SocketClose, Calls [Close ArgUndefined]]
        (snd (close True ?s))) = close_events (snd (close True ?s))"
    using b 1 by blast
  have 4: "fst (session_send (JStr ''greeting'') JNull (snd (close True ?s))) \<noteq> None"
    using b 1 by blast
  have 5: "permanentlyClosed (snd (close_c ?c))" using a by blast
  have 6: "close_callbacks (snd (close_c ?c)) = close_callbacks ?c @ [CloseCallback]"
    using a c by blast
  have 7: "close_callbacks (client_run (\<lambda>b. None) [AppCalls [CClose CArgUndefined], SocketClosed]
        (snd (close_c ?c))) = close_callbacks (snd (close_c ?c))"
    using b 5 by blast
  have 8: "fst (client_send (JStr ''greeting'') JNull (snd (close_c ?c))) \<noteq> None"
    using b 5 by blast
  show ?thesis
    using 1 2 3 4 5 6 7 8 by (simp only: s c append_Nil simp_thms)
qed

section \<open>Sending from the client\<close>

text \<open>
  While the reconnect callback runs the queue is empty, the session is not
  marked disconnected, and the socket is open unless the callback has closed
  the session; every operation of the callback keeps it so.
\<close>

definition reconnecting :: "client \<Rightarrow> bool" where
  "reconnecting st = (outgoingQueue st = [] \<and> \<not> temporarilyDisconnected st
     \<and> (readyState st = OPEN \<or> permanentlyClosed st))"

lemma run_c_reconnecting:
  "reconnecting st \<Longrightarrow> reconnecting (snd (run_c acts st))"
proof -
  let ?R = "\<lambda>a b. reconnecting a \<longrightarrow> reconnecting b"
  have "?R st (snd (run_c acts st))"
    by (rule close_run_c_rel(2) [where R = ?R];
        (blast | simp add: reconnecting_def client_send_def client_receive_def
           client_disconnect_def client_reconnect_def client_close_register_def
           flushOutgoingQueue_def Let_def))
  then show "reconnecting st \<Longrightarrow> reconnecting (snd (run_c acts st))" by simp
qed

lemma reconnect_queue_empty:
  assumes "temporarilyDisconnected st"
  shows "outgoingQueue (snd (client_step parse SocketOpen st)) = []"
proof -
  define s2 where "s2 = st\<lparr>readyState := OPEN, temporarilyDisconnected := False, outgoingQueue := []\<rparr>"
  let ?s0 = "st\<lparr>readyState := OPEN\<rparr>"
  have e: "(if length (outgoingQueue (?s0\<lparr>temporarilyDisconnected := False\<rparr>)) > 0
         then ?s0\<lparr>temporarilyDisconnected := False\<rparr>\<lparr>outgoingQueue :=
                drop (length (outgoingQueue (?s0\<lparr>temporarilyDisconnected := False\<rparr>)))
                  (outgoingQueue (?s0\<lparr>temporarilyDisconnected := False\<rparr>))\<rparr>
         else ?s0\<lparr>temporarilyDisconnected := False\<rparr>) = s2"
    by (simp add: s2_def)
  have i2: "reconnecting s2" by (simp add: reconnecting_def s2_def)
  have push: "outgoingQueue (flushOutgoingQueue (s\<lparr>outgoingQueue := outgoingQueue s @ [x]\<rparr>)) = []"
    if "reconnecting s" for s x
    using that by (intro flush_queue) (auto simp: reconnecting_def)
  have o: "client_step parse SocketOpen st = onSocketOpen ?s0"
    by (simp add: client_step_def)
  show ?thesis
  proof (cases "reconnectHandler s2")
    case None
    then show ?thesis
      using assms push [OF i2] unfolding o onSocketOpen_def Let_def e by simp
  next
    case (Some h)
    obtain x s3 where r: "run_c (cscript h JUndefined)
        (s2\<lparr>invoked_c := invoked_c s2 @ [ReconnectCallback]\<rparr>) = (x, s3)" by force
    have "reconnecting (s2\<lparr>invoked_c := invoked_c s2 @ [ReconnectCallback]\<rparr>)"
      using i2 by (simp add: reconnecting_def)
    from run_c_reconnecting [OF this, of "cscript h JUndefined"] r
    have i3: "reconnecting s3" by simp
    then have "outgoingQueue s3 = []" by (simp add: reconnecting_def)
    then show ?thesis
      using assms Some r push [OF i3] unfolding o onSocketOpen_def Let_def e
      by (cases x) simp_all
  qed
qed

text \<open>The envelopes the client queues for a message and for a reconnect.\<close>

definition message_envelope :: "jsval \<Rightarrow> jsval \<Rightarrow> jsval" where
  "message_envelope ty message =
     JObj [(''type'', JStr ''message''), (''messageType'', ty), (''message'', message)]"

definition reconnect_envelope :: "jsval \<Rightarrow> jsval" where
  "reconnect_envelope reconnectData =
     JObj [(''type'', JStr ''reconnect''), (''reconnectData'', reconnectData)]"

lemma reconnect_transmitted:
  assumes "temporarilyDisconnected st" and "\<not> permanentlyClosed st"
    and "reconnectHandler st = None"
  shows "transmitted (snd (client_step parse SocketOpen st))
     = transmitted st @ [wire_text (reconnect_envelope JNull)]"
  using assms
  by (simp add: client_step_def onSocketOpen_def flushOutgoingQueue_def Let_def
      reconnect_envelope_def)

lemma open_transmits_queue:
  assumes "\<not> temporarilyDisconnected st" and "\<not> permanentlyClosed st"
  shows "transmitted (snd (client_step parse SocketOpen st))
           = transmitted st @ map wire_text (outgoingQueue st)"
    and "outgoingQueue (snd (client_step parse SocketOpen st)) = []"
  using assms
  by (simp_all add: client_step_def onSocketOpen_def flushOutgoingQueue_def Let_def)

text \<open>
  C6. \<open>send(type, payload)\<close> with a string type and a convertible payload.

  On a permanently closed session it throws and changes nothing.

  On a temporarily disconnected session it returns without error and leaves the
  whole session state as it was, so in every later run of the session the texts
  given to the socket are those of the run without the call. Right after the
  next open event the queue is empty, and when no reconnect callback is
  registered the only text that event gives to the socket is the reconnect
  envelope: what was queued before is not sent.

  Otherwise the message envelope is appended to the queue and the queue is
  flushed: on an open socket every queued envelope, the new one last, is given
  to the socket as its JSON text, in order, and the queue is empty afterwards;
  on a socket that is not open the envelope stays in the queue, nothing is
  given to the socket, and the next open event sends the queue.
\<close>

theorem C6_client_send:
  assumes "is_string ty" and "jsonConvertible message"
  shows "(permanentlyClosed st \<longrightarrow>
           client_send ty message st =
             (Some (Thrown ''Attempted to transmit after the connection has been closed''), st))
       \<and> (\<not> permanentlyClosed st \<and> temporarilyDisconnected st \<longrightarrow>
           client_send ty message st = (None, st)
           \<and> transmitted (client_run parse ins (snd (client_send ty message st)))
               = transmitted (client_run parse ins st)
           \<and> outgoingQueue (snd (client_step parse SocketOpen (snd (client_send ty message st)))) = []
           \<and> (reconnectHandler st = None \<longrightarrow>
                transmitted (snd (client_step parse SocketOpen (snd (client_send ty message st))))
                  = transmitted st @ [wire_text (reconnect_envelope JNull)]))
       \<and> (\<not> permanentlyClosed st \<and> \<not> temporarilyDisconnected st \<and> readyState st = OPEN \<longrightarrow>
           fst (client_send ty message st) = None
           \<and> transmitted (snd (client_send ty message st))
               = transmitted st @ map wire_text (outgoingQueue st)
                   @ [wire_text (message_envelope ty message)]
           \<and> outgoingQueue (snd (client_send ty message st)) = [])
       \<and> (\<not> permanentlyClosed st \<and> \<not> temporarilyDisconnected st \<and> readyState st \<noteq> OPEN \<longrightarrow>
           client_send ty message st =
             (None, st\<lparr>outgoingQueue := outgoingQueue st @ [message_envelope ty message]\<rparr>)
           \<and> transmitted (snd (client_step parse SocketOpen (snd (client_send ty message st))))
               = transmitted st @ map wire_text (outgoingQueue st)
                   @ [wire_text (message_envelope ty message)])"
proof -
  have a: "client_send ty message st =
      (Some (Thrown ''Attempted to transmit after the connection has been closed''), st)"
    if "permanentlyClosed st"
    using that assms by (simp add: client_send_def)
  have b: "client_send ty message st = (None, st)"
    if "\<not> permanentlyClosed st" "temporarilyDisconnected st"
    using that assms by (simp add: client_send_def)
  have c: "fst (client_send ty message st) = None
      \<and> transmitted (snd (client_send ty message st))
           = transmitted st @ map wire_text (outgoingQueue st)
               @ [wire_text (message_envelope ty message)]
      \<and> outgoingQueue (snd (client_send ty message st)) = []"
    if "\<not> permanentlyClosed st" "\<not> temporarilyDisconnected st" "readyState st = OPEN"
    using that assms
    by (simp add: client_send_def flushOutgoingQueue_def Let_def message_envelope_def)
  have d: "client_send ty message st =
      (None, st\<lparr>outgoingQueue := outgoingQueue st @ [message_envelope ty message]\<rparr>)"
    if "\<not> permanentlyClosed st" "\<not> temporarilyDisconnected st" "readyState st \<noteq> OPEN"
    using that assms
    by (simp add: client_send_def flushOutgoingQueue_def Let_def message_envelope_def)
  have e: "transmitted (snd (client_step parse SocketOpen
             (st\<lparr>outgoingQueue := outgoingQueue st @ [message_envelope ty message]\<rparr>)))
        = transmitted st @ map wire_text (outgoingQueue st)
            @ [wire_text (message_envelope ty message)]"
    if "\<not> permanentlyClosed st" "\<not> temporarilyDisconnected st"
    using that
      open_transmits_queue(1) [of "st\<lparr>outgoingQueue := outgoingQueue st
          @ [message_envelope ty message]\<rparr>" parse]
    by simp
  show ?thesis
    using a b c d e reconnect_queue_empty [of st parse] reconnect_transmitted [of st parse]
    by simp
qed

text \<open>
  C6, instances: a closed session; a disconnected one, with the connect
  envelope still in its queue; one with an open socket; and one whose socket is
  still connecting.
\<close>

theorem C6_client_send_witness:
  \<open>client_send (JStr ''greeting'') (JStr ''hello'') (connect\<lparr>permanentlyClosed := True\<rparr>)
     = (Some (Thrown ''Attempted to transmit after the connection has been closed''),
        connect\<lparr>permanentlyClosed := True\<rparr>)
   \<and> client_send (JStr ''greeting'') (JStr ''hello'') (connect\<lparr>temporarilyDisconnected := True\<rparr>)
     = (None, connect\<lparr>temporarilyDisconnected := True\<rparr>)
   \<and> outgoingQueue (snd (client_step (\<lambda>w. None) SocketOpen
        (snd (client_send (JStr ''greeting'') (JStr ''hello'')
           (connect\<lparr>temporarilyDisconnected := True\<rparr>))))) = []
   \<and> transmitted (snd (client_step (\<lambda>w. None) SocketOpen
        (snd (client_send (JStr ''greeting'') (JStr ''hello'')
           (connect\<lparr>temporarilyDisconnected := True\<rparr>)))))
       = [''{"type":"reconnect","reconnectData":null}'']
   \<and> transmitted (snd (client_send (JStr ''greeting'') (JStr ''hello'')
        (connect\<lparr>readyState := OPEN\<rparr>)))
       = [''{"type":"connect"}'',
          ''{"type":"message","messageType":"greeting","message":"hello"}'']
   \<and> outgoingQueue (snd (client_send (JStr ''greeting'') (JStr ''hello'')
        (connect\<lparr>readyState := OPEN\<rparr>))) = []
   \<and> transmitted (snd (client_send (JStr ''greeting'') (JStr ''hello'') connect)) = []
   \<and> transmitted (snd (client_step (\<lambda>w. None) SocketOpen
        (snd (client_send (JStr ''greeting'') (JStr ''hello'') connect))))
       = [''{"type":"connect"}'',
          ''{"type":"message","messageType":"greeting","message":"hello"}'']\<close>
proof -
  let ?ty = "JStr ''greeting''" and ?m = "JStr ''hello''"
  have h: "is_string ?ty" "jsonConvertible ?m"
    by (simp_all add: is_string_def jsonConvertible_def)
  have p: "permanentlyClosed (connect\<lparr>permanentlyClosed := True\<rparr>)"
    "\<not> permanentlyClosed (connect\<lparr>temporarilyDisconnected := True\<rparr>)"
    "temporarilyDisconnected (connect\<lparr>temporarilyDisconnected := True\<rparr>)"
    "reconnectHandler (connect\<lparr>temporarilyDisconnected := True\<rparr>) = None"
    "\<not> permanentlyClosed (connect\<lparr>readyState := OPEN\<rparr>)"
    "\<not> temporarilyDisconnected (connect\<lparr>readyState := OPEN\<rparr>)"
    "readyState (connect\<lparr>readyState := OPEN\<rparr>) = OPEN"
    "\<not> permanentlyClosed connect" "\<not> temporarilyDisconnected connect"
    "readyState connect \<noteq> OPEN"
    by (simp_all add: connect_def flushOutgoingQueue_def)
  have q: "transmitted (connect\<lparr>temporarilyDisconnected := True\<rparr>) = []"
    "transmitted (connect\<lparr>readyState := OPEN\<rparr>) = []"
    "outgoingQueue (connect\<lparr>readyState := OPEN\<rparr>) = [JObj [(''type'', JStr ''connect'')]]"
    "transmitted connect = []"
    "outgoingQueue connect = [JObj [(''type'', JStr ''connect'')]]"
    by (simp_all add: connect_def flushOutgoingQueue_def)
  have w: \<open>wire_text (reconnect_envelope JNull) = ''{"type":"reconnect","reconnectData":null}''\<close>
    \<open>wire_text (JObj [(''type'', JStr ''connect'')]) = ''{"type":"connect"}''\<close>
    \<open>wire_text (message_envelope ?ty ?m)
       = ''{"type":"message","messageType":"greeting","message":"hello"}''\<close>
    by (simp_all add: wire_text_def reconnect_envelope_def message_envelope_def toJSON_def
        json_quote_def json_escape_def)
  have 1: "client_send ?ty ?m (connect\<lparr>permanentlyClosed := True\<rparr>)
     = (Some (Thrown ''Attempted to transmit after the connection has been closed''),
        connect\<lparr>permanentlyClosed := True\<rparr>)"
    using C6_client_send [OF h, of "connect\<lparr>permanentlyClosed := True\<rparr>" "\<lambda>w. None" "[]"] p
    by blast
  note d = C6_client_send [OF h, of "connect\<lparr>temporarilyDisconnected := True\<rparr>" "\<lambda>w. None" "[]"]
  have 2: "client_send ?ty ?m (connect\<lparr>temporarilyDisconnected := True\<rparr>)
     = (None, connect\<lparr>temporarilyDisconnected := True\<rparr>)"
    using d p by blast
  have 3: "outgoingQueue (snd (client_step (\<lambda>w. None) SocketOpen
        (snd (client_send ?ty ?m (connect\<lparr>temporarilyDisconnected := True\<rparr>))))) = []"
    using d p by blast
  have 4: "transmitted (snd (client_step (\<lambda>w. None) SocketOpen
        (snd (client_send ?ty ?m (connect\<lparr>temporarilyDisconnected := True\<rparr>)))))
       = transmitted (connect\<lparr>temporarilyDisconnected := True\<rparr>)
           @ [wire_text (reconnect_envelope JNull)]"
    using d p by blast
  note o = C6_client_send [OF h, of "connect\<lparr>readyState := OPEN\<rparr>" "\<lambda>w. None" "[]"]
  have 5: "transmitted (snd (client_send ?ty ?m (connect\<lparr>readyState := OPEN\<rparr>)))
       = transmitted (connect\<lparr>readyState := OPEN\<rparr>)
           @ map wire_text (outgoingQueue (connect\<lparr>readyState := OPEN\<rparr>))
           @ [wire_text (message_envelope ?ty ?m)]"
    using o p by blast
  have 6: "outgoingQueue (snd (client_send ?ty ?m (connect\<lparr>readyState := OPEN\<rparr>))) = []"
    using o p by blast
  note n = C6_client_send [OF h, of connect "\<lambda>w. None" "[]"]
  have 7: "client_send ?ty ?m connect =
      (None, connect\<lparr>outgoingQueue := outgoingQueue connect @ [message_envelope ?ty ?m]\<rparr>)"
    using n p by blast
  have 8: "transmitted (snd (client_step (\<lambda>w. None) SocketOpen (snd (client_send ?ty ?m connect))))
       = transmitted connect @ map wire_text (outgoingQueue connect)
           @ [wire_text (message_envelope ?ty ?m)]"
    using n p by blast
  have 9: "transmitted (snd (client_send ?ty ?m connect)) = []"
    using 7 q by simp
  show ?thesis
    using 1 2 3 4 5 6 8 9 by (simp only: q w list.map append.simps simp_thms)
qed

section \<open>Registering handlers on a closed session\<close>

text \<open>\<open>receive\<close>, \<open>disconnect\<close> and \<open>reconnect\<close> throw on a permanently closed session.\<close>

lemma client_registration_rejected:
  assumes "permanentlyClosed st"
  shows "fst (client_receive ty h st) \<noteq> None \<and> snd (client_receive ty h st) = st"
    and "fst (client_disconnect h st) \<noteq> None \<and> snd (client_disconnect h st) = st"
    and "fst (client_reconnect h st) \<noteq> None \<and> snd (client_reconnect h st) = st"
  using assms by (simp_all add: client_receive_def client_disconnect_def client_reconnect_def)

text \<open>
  C10. A session is closed with \<open>close()\<close>; then \<open>close(handler)\<close> is called with a
  function. The call returns without an exception and stores the handler: the
  registration form of \<open>close\<close> has no test of \<open>permanentlyClosed\<close>.
\<close>

theorem C10_close_registration_accepted:
  "permanentlyClosed (snd (close_c connect))
   \<and> fst (client_close (CArgFunction (CHandler (\<lambda>v. ([], JUndefined)))) (snd (close_c connect)))
       = None
   \<and> closeHandler_c (snd (client_close (CArgFunction (CHandler (\<lambda>v. ([], JUndefined))))
        (snd (close_c connect)))) = Some (CHandler (\<lambda>v. ([], JUndefined)))"
  by (simp add: close_c_always_closed client_close_def client_close_register_def
      is_handler_arg_def handler_of_def)

section \<open>The opening handshake\<close>

text \<open>
  \<^verbatim>\<open>crypto.createHash('sha1')\<close>: SHA-1 as the standard defines it. A 32-bit word
  is a natural number below \<open>2 ^ 32\<close>; addition wraps around.
\<close>

definition add32 :: "nat \<Rightarrow> nat \<Rightarrow> nat" where
  "add32 a b = (a + b) mod 4294967296"

definition rotl32 :: "nat \<Rightarrow> nat \<Rightarrow> nat" where
  "rotl32 n x = (x * 2 ^ n) mod 4294967296 + x div 2 ^ (32 - n)"

definition not32 :: "nat \<Rightarrow> nat" where
  "not32 x = 4294967295 - x"

text \<open>The message schedule, last word first: 64 words are added to the 16 of the block.\<close>

fun schedule :: "nat \<Rightarrow> nat list \<Rightarrow> nat list" where
  "schedule n ws = (if n = 0 then ws
     else schedule (n - 1) (rotl32 1 (ws ! 2 XOR ws ! 7 XOR ws ! 13 XOR ws ! 15) # ws))"

declare schedule.simps [simp del]

definition sha1_f :: "nat \<Rightarrow> nat \<Rightarrow> nat \<Rightarrow> nat \<Rightarrow> nat" where
  "sha1_f t b c d =
     (if t < 20 then (b AND c) OR (not32 b AND d)
      else if t < 40 then b XOR c XOR d
      else if t < 60 then (b AND c) OR (b AND d) OR (c AND d)
      else b XOR c XOR d)"

definition sha1_k :: "nat \<Rightarrow> nat" where
  "sha1_k t = (if t < 20 then 0x5A827999 else if t < 40 then 0x6ED9EBA1
     else if t < 60 then 0x8F1BBCDC else 0xCA62C1D6)"

type_synonym sha1_state = "nat \<times> nat \<times> nat \<times> nat \<times> nat"

fun rounds :: "nat \<Rightarrow> nat list \<Rightarrow> sha1_state \<Rightarrow> sha1_state" where
  "rounds t [] s = s"
| "rounds t (w # ws) (a, b, c, d, e) =
     rounds (t + 1) ws
       (add32 (add32 (add32 (add32 (rotl32 5 a) (sha1_f t b c d)) e) (sha1_k t)) w,
        a, rotl32 30 b, c, d)"

fun sha1_block :: "sha1_state \<Rightarrow> nat list \<Rightarrow> sha1_state" where
  "sha1_block (h0, h1, h2, h3, h4) ws =
     (case rounds 0 (rev (schedule 64 (rev ws))) (h0, h1, h2, h3, h4) of
        (a, b, c, d, e) \<Rightarrow> (add32 h0 a, add32 h1 b, add32 h2 c, add32 h3 d, add32 h4 e))"

text \<open>
  Padding (a one bit, zeros, and the length of the message in bits as 64 bits),
  the blocks of 64 bytes, and the big-endian words of a block.
\<close>

definition sha1_pad :: "buffer \<Rightarrow> buffer" where
  "sha1_pad m = m @ [128] @ replicate ((119 - length m mod 64) mod 64) 0
     @ map (\<lambda>i. of_nat (8 * length m div 256 ^ (7 - i))) [0, 1, 2, 3, 4, 5, 6, 7]"

fun blocks :: "buffer \<Rightarrow> buffer list" where
  "blocks bs = (if length bs < 64 then [] else take 64 bs # blocks (drop 64 bs))"

declare blocks.simps [simp del]

fun be32 :: "buffer \<Rightarrow> nat list" where
  "be32 (a # b # c # d # rest) =
     (((unat a * 256 + unat b) * 256 + unat c) * 256 + unat d) # be32 rest"
| "be32 rest = []"

definition word_bytes :: "nat \<Rightarrow> buffer" where
  "word_bytes w = [of_nat (w div 16777216), of_nat (w div 65536), of_nat (w div 256), of_nat w]"

definition sha1_init :: sha1_state where
  "sha1_init = (0x67452301, 0xEFCDAB89, 0x98BADCFE, 0x10325476, 0xC3D2E1F0)"

definition sha1 :: "buffer \<Rightarrow> buffer" where
  "sha1 m =
     (case foldl sha1_block sha1_init (map be32 (blocks (sha1_pad m))) of
        (h0, h1, h2, h3, h4) \<Rightarrow>
          word_bytes h0 @ word_bytes h1 @ word_bytes h2 @ word_bytes h3 @ word_bytes h4)"

text \<open>\<^verbatim>\<open>digest('base64')\<close>: the standard alphabet, padded with \<^verbatim>\<open>=\<close>.\<close>

definition base64_digit :: "nat \<Rightarrow> char" where
  "base64_digit n =
     ''ABCDEFGHIJKLMNOPQRSTUVWXYZabcdefghijklmnopqrstuvwxyz0123456789+/'' ! n"

fun base64 :: "buffer \<Rightarrow> string" where
  "base64 (a # b # c # rest) =
     [base64_digit (unat a div 4), base64_digit (unat a mod 4 * 16 + unat b div 16),
      base64_digit (unat b mod 16 * 4 + unat c div 64), base64_digit (unat c mod 64)]
     @ base64 rest"
| "base64 [a, b] =
     [base64_digit (unat a div 4), base64_digit (unat a mod 4 * 16 + unat b div 16),
      base64_digit (unat b mod 16 * 4), CHR ''='']"
| "base64 [a] = [base64_digit (unat a div 4), base64_digit (unat a mod 4 * 16), CHR ''='', CHR ''='']"
| "base64 [] = []"

text \<open>
  The upgrade handler up to the response (server source, lines 21-34). Of the
  request it reads three headers; the platform gives the name of a header that
  is missing the value \<^verbatim>\<open>undefined\<close>, which the concatenation with a string
  turns into the text \<^verbatim>\<open>undefined\<close>. A string is hashed in its UTF-8 encoding.
  The result is the text written to the socket, or \<open>None\<close> when the socket is
  ended instead.
\<close>

record request =
  upgradeHeader :: string
  versionHeader :: "string option"
  keyHeader :: "string option"

definition toLowerCase :: "string \<Rightarrow> string" where
  "toLowerCase s = map (\<lambda>c. let n = (of_char c :: nat) in
     if 65 \<le> n \<and> n \<le> 90 \<or> 192 \<le> n \<and> n \<le> 214 \<or> 216 \<le> n \<and> n \<le> 222
     then char_of (n + 32) else c) s"

definition header_text :: "string option \<Rightarrow> string" where
  "header_text h = (case h of None \<Rightarrow> ''undefined'' | Some s \<Rightarrow> s)"

definition accept_token :: "string \<Rightarrow> string" where
  "accept_token k = base64 (sha1 (utf8 (k @ ''258EAFA5-E914-47DA-95CA-C5AB0DC85B11'')))"

definition crlf :: string where
  "crlf = [CHR 0x0D, CHR 0x0A]"

definition on_upgrade :: "request \<Rightarrow> string option" where
  "on_upgrade req =
     (if toLowerCase (upgradeHeader req) = ''websocket'' then
        (if versionHeader req = Some ''13'' then
           Some (''HTTP/1.1 101 Switching Protocols'' @ crlf @
                 ''Upgrade: websocket'' @ crlf @
                 ''Connection: Upgrade'' @ crlf @
                 ''Sec-WebSocket-Accept: '' @ accept_token (header_text (keyHeader req)) @ crlf @
                 crlf)
         else None)
      else None)"

text \<open>Known answers: the digest of \<open>abc\<close>, and three texts in base64.\<close>

lemma replicate_numeral_Cons: "replicate (numeral k) x = x # replicate (pred_numeral k) x"
  by (simp add: numeral_eq_Suc)

lemma sha1_abc:
  "sha1 (utf8 ''abc'') = [0xA9, 0x99, 0x3E, 0x36, 0x47, 0x06, 0x81, 0x6A, 0xBA, 0x3E,
     0x25, 0x71, 0x78, 0x50, 0xC2, 0x6C, 0x9C, 0xD0, 0xD8, 0x9D]"
proof -
  have w: "map be32 (blocks (sha1_pad (utf8 ''abc''))) =
      [[1633837952, 0, 0, 0, 0, 0, 0, 0, 0, 0, 0, 0, 0, 0, 0, 24]]"
    by (simp add: sha1_pad_def utf8_def utf8_unit_def blocks.simps replicate_numeral_Cons)
  have b: "sha1_block sha1_init [1633837952, 0, 0, 0, 0, 0, 0, 0, 0, 0, 0, 0, 0, 0, 0, 24]
      = (2845392438, 1191608682, 3124634993, 2018558572, 2630932637)"
    by (simp add: sha1_init_def schedule.simps rotl32_def add32_def not32_def sha1_f_def
        sha1_k_def)
  show ?thesis
    by (simp add: sha1_def w b word_bytes_def)
qed

lemma base64_known:
  "base64 (utf8 ''f'') = ''Zg==''"
  "base64 (utf8 ''fo'') = ''Zm8=''"
  "base64 (utf8 ''foobar'') = ''Zm9vYmFy''"
  by (simp_all add: utf8_def utf8_unit_def base64_digit_def)

text \<open>The two blocks of the key \<^verbatim>\<open>dGhlIHNhbXBsZSBub25jZQ==\<close> followed by the GUID.\<close>

lemma sample_words:
  "map be32 (blocks (sha1_pad (utf8
      (''dGhlIHNhbXBsZSBub25jZQ=='' @ ''258EAFA5-E914-47DA-95CA-C5AB0DC85B11'')))) =
     [[1682401388, 1229475432, 1649951347, 1515405941, 1647457642, 1515273533, 842348613,
       1095123253, 759511345, 875377719, 1145122105, 893600045, 1127563586, 809780024,
       893530417, 2147483648],
      [0, 0, 0, 0, 0, 0, 0, 0, 0, 0, 0, 0, 0, 0, 0, 480]]"
  by (simp add: sha1_pad_def utf8_def utf8_unit_def blocks.simps replicate_numeral_Cons)

lemma sample_block1:
  "sha1_block sha1_init
     [1682401388, 1229475432, 1649951347, 1515405941, 1647457642, 1515273533, 842348613,
      1095123253, 759511345, 875377719, 1145122105, 893600045, 1127563586, 809780024,
      893530417, 2147483648]
   = (1540323111, 1931952490, 3195796473, 1517820024, 1581688034)"
  by (simp add: sha1_init_def schedule.simps rotl32_def add32_def not32_def sha1_f_def
      sha1_k_def)

lemma sample_block2:
  "sha1_block (1540323111, 1931952490, 3195796473, 1517820024, 1581688034)
     [0, 0, 0, 0, 0, 0, 0, 0, 0, 0, 0, 0, 0, 0, 0, 480]
   = (3011137324, 3227668246, 2432058886, 3476576581, 2998846698)"
  by (simp add: schedule.simps rotl32_def add32_def not32_def sha1_f_def sha1_k_def)

lemma sample_digest:
  "sha1 (utf8 (''dGhlIHNhbXBsZSBub25jZQ=='' @ ''258EAFA5-E914-47DA-95CA-C5AB0DC85B11''))
     = [179, 122, 79, 44, 192, 98, 79, 22, 144, 246, 70, 6, 207, 56, 89, 69, 178, 190, 196, 234]"
  by (simp only: sha1_def sample_words foldl.simps sample_block1 sample_block2)
     (simp add: word_bytes_def)

text \<open>
  C5. For every key the upgrade handler answers a version 13 request with the
  token base64(SHA-1(key + GUID)) in the accept header, and the key
  \<^verbatim>\<open>dGhlIHNhbXBsZSBub25jZQ==\<close> gives the token \<^verbatim>\<open>s3pPLMBiTxaQ9kYGzzhZRbK+xOo=\<close>.
\<close>

theorem C5_accept_token:
  "on_upgrade \<lparr>upgradeHeader = ''websocket'', versionHeader = Some ''13'', keyHeader = Some k\<rparr>
     = Some (''HTTP/1.1 101 Switching Protocols'' @ crlf @
             ''Upgrade: websocket'' @ crlf @
             ''Connection: Upgrade'' @ crlf @
             ''Sec-WebSocket-Accept: '' @
               base64 (sha1 (utf8 (k @ ''258EAFA5-E914-47DA-95CA-C5AB0DC85B11''))) @ crlf @
             crlf)
   \<and> accept_token ''dGhlIHNhbXBsZSBub25jZQ=='' = ''s3pPLMBiTxaQ9kYGzzhZRbK+xOo=''
   \<and> on_upgrade \<lparr>upgradeHeader = ''WebSocket'', versionHeader = Some ''13'',
        keyHeader = Some ''dGhlIHNhbXBsZSBub25jZQ==''\<rparr>
     = Some (''HTTP/1.1 101 Switching Protocols'' @ crlf @
             ''Upgrade: websocket'' @ crlf @
             ''Connection: Upgrade'' @ crlf @
             ''Sec-WebSocket-Accept: s3pPLMBiTxaQ9kYGzzhZRbK+xOo='' @ crlf @
             crlf)"
proof -
  have t: "accept_token ''dGhlIHNhbXBsZSBub25jZQ=='' = ''s3pPLMBiTxaQ9kYGzzhZRbK+xOo=''"
    unfolding accept_token_def sample_digest by (simp add: base64_digit_def)
  have l: "toLowerCase ''WebSocket'' = ''websocket''" "toLowerCase ''websocket'' = ''websocket''"
    by (simp_all add: toLowerCase_def char_of_eq_iff)
  show ?thesis
    by (simp add: on_upgrade_def l t header_text_def) (simp add: accept_token_def)
qed

end
